theory Spec2Isabelle
  imports Main "HOL-Library.Sublist"
begin

section \<open>Strings and errors\<close>

text \<open>
  A JavaScript string is a sequence of UTF-16 code units. The regular expressions and
  \<open>trim\<close> of the source work on code units, and the source contains literals outside
  Latin-1, so a string is a list of code-unit numbers; \<open>js\<close> writes an ASCII literal.
\<close>

type_synonym jsstring = "nat list"

definition js :: "string \<Rightarrow> jsstring" where
  "js s = map of_char s"

text \<open>An exception is the message of the thrown \<open>Error\<close>.\<close>

type_synonym error = jsstring

text \<open>
  An asynchronous call on the outside world (vault, network, persisted data file): it
  takes the world, and returns either the thrown error or the value, with the new world.
\<close>

type_synonym ('a, 'w) io = "'w \<Rightarrow> (error + 'a) \<times> 'w"

section \<open>sync-state.ts\<close>

record PageSyncState =
  pageId :: jsstring
  localPath :: jsstring
  version :: int
  lastUpdated :: int

text \<open>
  \<open>PluginData\<close> as declared in sync-state.ts has the fields \<open>syncState\<close> and
  \<open>lastGlobalSyncTime\<close>. main.ts also hands the saved \<open>syncedRootIds\<close> to the
  constructor of \<open>SyncStateManager\<close>, which spreads them into its data object, and
  sync-service.ts reads and extends them; the field is kept here for that reason.
\<close>

record PluginData =
  syncState :: "jsstring \<rightharpoonup> PageSyncState"
  lastGlobalSyncTime :: int
  syncedRootIds :: "jsstring list"

definition DEFAULT_PLUGIN_DATA :: PluginData where
  "DEFAULT_PLUGIN_DATA =
     \<lparr>syncState = Map.empty, lastGlobalSyncTime = 0, syncedRootIds = []\<rparr>"

text \<open>
  \<open>syncState\<close> is a plain object: it comes from an object literal, from a spread or from
  the parsed data file, so its prototype is \<open>Object.prototype\<close>. The field \<open>syncState\<close>
  of the model holds its own properties. The member access \<open>this.data.syncState[pageId]\<close>
  of \<open>getPageState\<close> finds an own property first and then the members that every plain
  object inherits, listed in \<open>Object_prototype_members\<close>: eleven functions and the accessor
  \<open>__proto__\<close>, which yields the prototype object.
\<close>

datatype property = Undefined | Own PageSyncState | Inherited

definition Object_prototype_members :: "jsstring list" where
  "Object_prototype_members =
     map js [''constructor'', ''__defineGetter__'', ''__defineSetter__'', ''hasOwnProperty'',
             ''__lookupGetter__'', ''__lookupSetter__'', ''isPrototypeOf'',
             ''propertyIsEnumerable'', ''toString'', ''valueOf'', ''__proto__'',
             ''toLocaleString'']"

definition getPageState :: "PluginData \<Rightarrow> jsstring \<Rightarrow> property" where
  "getPageState d pid =
     (case syncState d pid of
        Some state \<Rightarrow> Own state
      | None \<Rightarrow> if pid \<in> set Object_prototype_members then Inherited else Undefined)"


text \<open>
  Modelled from the spec: \<open>getSyncedRootIds\<close> and \<open>addSyncedRootIds\<close> are called by
  sync-service.ts but their bodies are not in sync-state.ts as given; the spec has
  \<open>listSyncedRoots() -> set\<close> and \<open>recordRootSynced(ids)\<close> on the persisted field
  \<open>syncedRootIds: array<string>\<close>.
\<close>

definition getSyncedRootIds :: "PluginData \<Rightarrow> jsstring list" where
  "getSyncedRootIds d = syncedRootIds d"

text \<open>
  \<open>needsSync\<close>. An inherited member is a function or the prototype object: it is truthy,
  so the test \<open>!state\<close> fails, and it has no property \<open>version\<close>, so the comparison is
  \<open>remoteVersion > undefined\<close>, which is false.
\<close>

definition needsSync :: "PluginData \<Rightarrow> jsstring \<Rightarrow> int \<Rightarrow> bool" where
  "needsSync d pid remoteVersion =
     (case getPageState d pid of
        Undefined \<Rightarrow> True
      | Own state \<Rightarrow> remoteVersion > version state
      | Inherited \<Rightarrow> False)"




definition clearAllStates ::
  "(PluginData \<Rightarrow> (unit, 'w) io) \<Rightarrow> PluginData \<Rightarrow> 'w
     \<Rightarrow> (error + unit) \<times> PluginData \<times> 'w" where
  "clearAllStates saveCallback d w =
     (let d' = d\<lparr>syncState := Map.empty, lastGlobalSyncTime := 0\<rparr>;
          (r, w') = saveCallback d' w
      in (r, d', w'))"

section \<open>sync-service.ts: file names\<close>

text \<open>
  The class \<open>\s\<close> of a JavaScript regular expression and \<open>String.prototype.trim\<close>
  use the same set: the WhiteSpace and LineTerminator code units.
\<close>

definition is_ws :: "nat \<Rightarrow> bool" where
  "is_ws c = (c \<in> {9, 10, 11, 12, 13, 32, 160, 5760, 8232, 8233, 8239, 8287, 12288, 65279}
              \<or> (8192 \<le> c \<and> c \<le> 8202))"

text \<open>The class \<open>[\\/:*?"<>|]\<close>: backslash, slash, colon, star, question mark, double
  quote, less, greater, bar.\<close>

definition is_reserved :: "nat \<Rightarrow> bool" where
  "is_reserved c = (c \<in> {92, 47, 58, 42, 63, 34, 60, 62, 124})"

text \<open>What the first \<open>replace\<close> does to one code unit; 95 is the underscore.\<close>

definition repl :: "nat \<Rightarrow> nat" where
  "repl c = (if is_reserved c then 95 else c)"

definition replace_reserved :: "jsstring \<Rightarrow> jsstring" where
  "replace_reserved s = map repl s"

text \<open>\<open>replace(/^\s+/, "")\<close> and \<open>replace(/\s+$/, "")\<close>.\<close>

definition strip_leading_ws :: "jsstring \<Rightarrow> jsstring" where
  "strip_leading_ws s = dropWhile is_ws s"

definition strip_trailing_ws :: "jsstring \<Rightarrow> jsstring" where
  "strip_trailing_ws s = rev (dropWhile is_ws (rev s))"

text \<open>\<open>replace(/\s+/g, " ")\<close>: every maximal run of whitespace becomes one space.\<close>

function collapse_ws :: "jsstring \<Rightarrow> jsstring" where
  "collapse_ws [] = []"
| "collapse_ws (c # cs) =
     (if is_ws c then 32 # collapse_ws (dropWhile is_ws cs) else c # collapse_ws cs)"
  by pat_completeness auto
termination
  by (relation "measure length") (auto simp: length_dropWhile_le less_Suc_eq_le)

definition trim :: "jsstring \<Rightarrow> jsstring" where
  "trim s = strip_trailing_ws (strip_leading_ws s)"

text \<open>The value of \<open>safe\<close> after the four chained \<open>replace\<close> calls, before the length limit.\<close>

definition pre_truncation :: "jsstring \<Rightarrow> jsstring" where
  "pre_truncation name =
     collapse_ws (strip_trailing_ws (strip_leading_ws (replace_reserved name)))"

definition sanitizeFileName :: "jsstring \<Rightarrow> jsstring" where
  "sanitizeFileName name =
     (let safe = pre_truncation name;
          safe = (if length safe > 200 then take 200 safe else safe);
          safe = (if trim safe = [] then js ''untitled'' else safe)
      in trim safe)"

text \<open>Vocabulary for the properties of file names: a string of whitespace only, and a
  string in which every whitespace code unit is a space followed by a non-whitespace one
  (or is the last one).\<close>

definition blank :: "jsstring \<Rightarrow> bool" where
  "blank s = (\<forall>c \<in> set s. is_ws c)"

fun single_spaced :: "jsstring \<Rightarrow> bool" where
  "single_spaced [] = True"
| "single_spaced [c] = (is_ws c \<longrightarrow> c = 32)"
| "single_spaced (c # d # cs) =
     ((is_ws c \<longrightarrow> c = 32 \<and> \<not> is_ws d) \<and> single_spaced (d # cs))"

section \<open>sync-service.ts: page paths\<close>

text \<open>
  The fields of the remote data that the synchronisation reads (confluence-api.ts), and
  of the settings (settings.ts). \<open>attachment_size\<close> is \<open>children?.attachment?.size\<close>,
  absent when the listing did not expand it.
\<close>

record ConfluenceAncestor =
  anc_id :: jsstring
  anc_title :: jsstring

record ConfluencePage =
  page_id :: jsstring
  page_title :: jsstring
  page_version :: int
  ancestors :: "ConfluenceAncestor list"
  body :: jsstring
  attachment_size :: "int option"

record ConfluenceSyncSettings =
  confluenceBaseUrl :: jsstring
  syncFolder :: jsstring
  rootPageIds :: jsstring

record PagePathInfo =
  pi_pageId :: jsstring
  pi_title :: jsstring
  folderPath :: jsstring
  filePath :: jsstring

text \<open>
  \<open>parseRootPageIds\<close> splits at runs of the class \<open>[\<dots>,\n\s]\<close>, whose first member is
  the full-width comma U+FF0C. \<open>split\<close> keeps the empty pieces at both ends, which the
  filter then drops.
\<close>

definition is_id_separator :: "nat \<Rightarrow> bool" where
  "is_id_separator c = (c = 65292 \<or> c = 44 \<or> c = 10 \<or> is_ws c)"

function split_runs :: "(nat \<Rightarrow> bool) \<Rightarrow> jsstring \<Rightarrow> jsstring list" where
  "split_runs sep s =
     (let piece = takeWhile (\<lambda>c. \<not> sep c) s; rest = dropWhile (\<lambda>c. \<not> sep c) s
      in if rest = [] then [piece] else piece # split_runs sep (dropWhile sep rest))"
  by pat_completeness auto
termination
proof (relation "measure (\<lambda>(sep, s). length s)")
  show "wf (measure (\<lambda>(sep, s). length s))" by simp
next
  fix sep :: "nat \<Rightarrow> bool" and s piece rest :: jsstring
  assume r: "rest = dropWhile (\<lambda>c. \<not> sep c) s" and ne: "rest \<noteq> []"
  from ne obtain c cs where c: "rest = c # cs" by (cases rest) auto
  have "dropWhile (\<lambda>c. \<not> sep c) s \<noteq> []" using r ne by simp
  from hd_dropWhile[OF this] have "sep (hd rest)" using r by simp
  then have "sep c" using c by simp
  then have "length (dropWhile sep rest) \<le> length cs" using c by (simp add: length_dropWhile_le)
  also have "\<dots> < length rest" using c by simp
  also have "\<dots> \<le> length s" using r by (simp add: length_dropWhile_le)
  finally show "((sep, dropWhile sep rest), (sep, s)) \<in> measure (\<lambda>(sep, s). length s)" by simp
qed

definition parseRootPageIds :: "jsstring \<Rightarrow> jsstring list" where
  "parseRootPageIds input =
     (if trim input = [] then []
      else filter (\<lambda>i. length i > 0) (map trim (split_runs is_id_separator input)))"

fun join :: "jsstring \<Rightarrow> jsstring list \<Rightarrow> jsstring" where
  "join sep [] = []"
| "join sep [x] = x"
| "join sep (x # y # ys) = x @ sep @ join sep (y # ys)"

text \<open>
  Vocabulary for file names, continued: the words of a string are its maximal runs of
  code units that are not whitespace, in order.
\<close>

function words_of :: "jsstring \<Rightarrow> jsstring list" where
  "words_of s =
     (let s' = dropWhile is_ws s
      in if s' = [] then []
         else takeWhile (\<lambda>c. \<not> is_ws c) s' # words_of (dropWhile (\<lambda>c. \<not> is_ws c) s'))"
  by pat_completeness auto
termination
proof (relation "measure length")
  show "wf (measure length)" by simp
next
  fix s s' :: jsstring
  assume s': "s' = dropWhile is_ws s" and ne: "s' \<noteq> []"
  then have "dropWhile is_ws s \<noteq> []" by simp
  from hd_dropWhile[OF this] have h: "\<not> is_ws (hd s')" by (simp add: s')
  obtain c cs where c: "s' = c # cs" using ne by (cases s') auto
  have "length (dropWhile (\<lambda>c. \<not> is_ws c) s') \<le> length cs"
    using h c by (simp add: length_dropWhile_le)
  also have "\<dots> < length s'" using c by simp
  also have "\<dots> \<le> length s" using s' by (simp add: length_dropWhile_le)
  finally show "(dropWhile (\<lambda>c. \<not> is_ws c) s', s) \<in> measure length" by simp
qed

declare words_of.simps [simp del]

text \<open>The words of a name, with every reserved character replaced by an underscore,
  joined by single spaces.\<close>

definition spaced_words :: "jsstring \<Rightarrow> jsstring" where
  "spaced_words name = join [32] (words_of (map repl name))"

text \<open>
  \<open>calculatePagePaths\<close>. Obsidian's \<open>normalizePath\<close> is not code of this repository
  and is a parameter. \<open>pagePathInfo\<close> is the body of the second loop.
\<close>

definition parentPageIds :: "ConfluencePage list \<Rightarrow> jsstring set" where
  "parentPageIds pages = set (concat (map (\<lambda>page. map anc_id (ancestors page)) pages))"

definition pagePathInfo ::
  "(jsstring \<Rightarrow> jsstring) \<Rightarrow> ConfluenceSyncSettings \<Rightarrow> jsstring set \<Rightarrow> jsstring set
     \<Rightarrow> ConfluencePage \<Rightarrow> PagePathInfo" where
  "pagePathInfo normalizePath settings rootIds parents page =
     (let pathSegments = map (\<lambda>a. sanitizeFileName (anc_title a))
                             (filter (\<lambda>a. anc_id a \<notin> rootIds) (ancestors page));
          basePath = (if length pathSegments > 0
                      then normalizePath (syncFolder settings @ js ''/'' @ join (js ''/'') pathSegments)
                      else normalizePath (syncFolder settings));
          safePageTitle = sanitizeFileName (page_title page);
          folder = (if page_id page \<in> parents
                    then normalizePath (basePath @ js ''/'' @ safePageTitle)
                    else basePath);
          file = normalizePath (folder @ js ''/'' @ safePageTitle @ js ''.md'')
      in \<lparr>pi_pageId = page_id page, pi_title = page_title page,
          folderPath = folder, filePath = file\<rparr>)"

definition calculatePagePaths ::
  "(jsstring \<Rightarrow> jsstring) \<Rightarrow> ConfluenceSyncSettings \<Rightarrow> ConfluencePage list
     \<Rightarrow> (jsstring \<rightharpoonup> PagePathInfo)" where
  "calculatePagePaths normalizePath settings pages =
     (let rootIds = set (parseRootPageIds (rootPageIds settings));
          parents = parentPageIds pages
      in fold (\<lambda>page pathMap.
                 pathMap(page_id page \<mapsto> pagePathInfo normalizePath settings rootIds parents page))
           pages Map.empty)"

section \<open>confluence-api.ts: listing\<close>

text \<open>
  The answer of the search endpoint. \<open>res_size\<close> is the field \<open>size\<close> and
  \<open>res_totalSize\<close> the field \<open>_totalSize\<close> of the JSON body; nothing in the client ties
  them to the length of \<open>results\<close>.
\<close>

record CQLSearchResult =
  res_results :: "ConfluencePage list"
  res_size :: int
  res_start :: int
  res_limit :: int
  res_totalSize :: int

text \<open>
  \<open>fetchPagesByRootIds\<close> answers an empty id list itself and otherwise sends one request.
  The parameter \<open>search\<close> is that request (the query string built from the ids, the time
  of the last synchronisation, \<open>start\<close> and \<open>limit\<close>, the HTTP call and the parsed body);
  it may throw.
\<close>

definition fetchPagesByRootIds ::
  "(jsstring list \<Rightarrow> int \<Rightarrow> nat \<Rightarrow> nat \<Rightarrow> (CQLSearchResult, 'w) io)
     \<Rightarrow> jsstring list \<Rightarrow> int \<Rightarrow> nat \<Rightarrow> nat \<Rightarrow> (CQLSearchResult, 'w) io" where
  "fetchPagesByRootIds search rootIds lastSyncTime start limit w =
     (if length rootIds = 0
      then (Inr \<lparr>res_results = [], res_size = 0, res_start = 0, res_limit = int limit,
                 res_totalSize = 0\<rparr>, w)
      else search rootIds lastSyncTime start limit w)"

text \<open>
  The \<open>while (hasMore)\<close> loop of \<open>fetchAllPagesByRootIds\<close>, with \<open>limit = 25\<close>. The
  result is \<open>None\<close> when the loop never ends.
\<close>

partial_function (option) fetchAll_loop ::
  "(jsstring list \<Rightarrow> int \<Rightarrow> nat \<Rightarrow> nat \<Rightarrow> (CQLSearchResult, 'w) io)
     \<Rightarrow> jsstring list \<Rightarrow> int \<Rightarrow> ConfluencePage list \<Rightarrow> nat \<Rightarrow> 'w
     \<Rightarrow> ((error + ConfluencePage list) \<times> 'w) option" where
  "fetchAll_loop search rootIds lastSyncTime allPages start w =
     (case fetchPagesByRootIds search rootIds lastSyncTime start 25 w of
        (Inl e, w') \<Rightarrow> Some (Inl e, w')
      | (Inr result, w') \<Rightarrow>
          (let allPages' = allPages @ res_results result;
               hasMore = (res_size result = 25 \<and> int (length allPages') < res_totalSize result)
           in if length allPages' \<ge> 1000 then Some (Inr allPages', w')
              else if hasMore
                   then fetchAll_loop search rootIds lastSyncTime allPages' (start + 25) w'
                   else Some (Inr allPages', w')))"

definition fetchAllPagesByRootIds ::
  "(jsstring list \<Rightarrow> int \<Rightarrow> nat \<Rightarrow> nat \<Rightarrow> (CQLSearchResult, 'w) io)
     \<Rightarrow> jsstring list \<Rightarrow> int \<Rightarrow> 'w \<Rightarrow> ((error + ConfluencePage list) \<times> 'w) option" where
  "fetchAllPagesByRootIds search rootIds lastSyncTime w =
     fetchAll_loop search rootIds lastSyncTime [] 0 w"

text \<open>
  A remote that answers the k-th request with the k-th element of a sequence of pages; the
  world is the number of requests made so far. \<open>fetched rs k\<close> is what the loop has
  accumulated after answer k, \<open>stops_at rs k\<close> the three reasons to stop there, and
  \<open>honours_limit\<close> says that a page reports its own length as its size and is not longer
  than the page size.
\<close>

definition serve ::
  "(nat \<Rightarrow> CQLSearchResult) \<Rightarrow> jsstring list \<Rightarrow> int \<Rightarrow> nat \<Rightarrow> nat \<Rightarrow> (CQLSearchResult, nat) io" where
  "serve rs rootIds lastSyncTime start limit k = (Inr (rs k), Suc k)"

definition fetched :: "(nat \<Rightarrow> CQLSearchResult) \<Rightarrow> nat \<Rightarrow> ConfluencePage list" where
  "fetched rs k = concat (map (\<lambda>i. res_results (rs i)) [0..<Suc k])"

definition stops_at :: "(nat \<Rightarrow> CQLSearchResult) \<Rightarrow> nat \<Rightarrow> bool" where
  "stops_at rs k =
     (length (res_results (rs k)) < 25
      \<or> res_totalSize (rs k) \<le> int (length (fetched rs k))
      \<or> 1000 \<le> length (fetched rs k))"

definition honours_limit :: "CQLSearchResult \<Rightarrow> bool" where
  "honours_limit r = (res_size r = int (length (res_results r)) \<and> length (res_results r) \<le> 25)"

section \<open>html-to-md.ts\<close>

text \<open>
  \<open>html.replace(/<[^>]*>/g, "")\<close>: at a \<open><\<close> (60) the pattern matches up to the next \<open>>\<close>
  (62) when there is one, and fails otherwise.
\<close>

function strip_tags :: "jsstring \<Rightarrow> jsstring" where
  "strip_tags [] = []"
| "strip_tags (c # cs) =
     (if c = 60 \<and> 62 \<in> set cs
      then strip_tags (tl (dropWhile (\<lambda>d. d \<noteq> 62) cs))
      else c # strip_tags cs)"
  by pat_completeness auto
termination
proof (relation "measure length")
  show "wf (measure length)" by simp
next
  fix c :: nat and cs :: jsstring
  have "length (tl (dropWhile (\<lambda>d. d \<noteq> 62) cs)) \<le> length (dropWhile (\<lambda>d. d \<noteq> 62) cs)" by simp
  also have "\<dots> \<le> length cs" by (rule length_dropWhile_le)
  finally show "(tl (dropWhile (\<lambda>d. d \<noteq> 62) cs), c # cs) \<in> measure length" by simp
next
  fix c :: nat and cs :: jsstring
  show "(cs, c # cs) \<in> measure length" by simp
qed

text \<open>
  \<open>HtmlToMarkdownConverter.convert\<close>. The Turndown service with the rules of
  \<open>configureRules\<close> is a parameter: it returns the Markdown or throws. The result is a sum
  so that "does not throw" is a statement about it.
\<close>

definition convert :: "(jsstring \<Rightarrow> error + jsstring) \<Rightarrow> jsstring \<Rightarrow> error + jsstring" where
  "convert turndown html =
     (case turndown html of
        Inr markdown \<Rightarrow> Inr markdown
      | Inl e \<Rightarrow> Inr (strip_tags html))"

text \<open>
  Vocabulary for the fallback of \<open>convert\<close>: a document as a sequence of text pieces and
  tags. A tag is written \<open><\<close>, its inside, \<open>>\<close>. The sequence is a reading of the document
  by the pattern \<open><[^>]*>\<close> when no inside of a tag contains \<open>>\<close>, no text piece before the
  last piece contains \<open><\<close>, and in a last text piece no \<open><\<close> is followed by \<open>>\<close>.
\<close>

datatype piece = Text jsstring | Tag jsstring

fun render :: "piece list \<Rightarrow> jsstring" where
  "render [] = []"
| "render (Text t # ps) = t @ render ps"
| "render (Tag b # ps) = 60 # b @ 62 # render ps"

fun plain_text :: "piece list \<Rightarrow> jsstring" where
  "plain_text [] = []"
| "plain_text (Text t # ps) = t @ plain_text ps"
| "plain_text (Tag b # ps) = plain_text ps"

fun tag_reading :: "piece list \<Rightarrow> bool" where
  "tag_reading [] = True"
| "tag_reading (Tag b # ps) = (62 \<notin> set b \<and> tag_reading ps)"
| "tag_reading [Text t] = (62 \<notin> set (dropWhile (\<lambda>c. c \<noteq> 60) t))"
| "tag_reading (Text t # p # ps) = (60 \<notin> set t \<and> tag_reading (p # ps))"

text \<open>The reading of a document: the pieces in which the pattern finds its matches.\<close>

function pieces :: "jsstring \<Rightarrow> piece list" where
  "pieces s =
     (let t = takeWhile (\<lambda>c. c \<noteq> 60) s; r = dropWhile (\<lambda>c. c \<noteq> 60) s
      in if r = [] \<or> 62 \<notin> set r then [Text s]
         else Text t # Tag (takeWhile (\<lambda>c. c \<noteq> 62) (tl r))
                # pieces (tl (dropWhile (\<lambda>c. c \<noteq> 62) (tl r))))"
  by pat_completeness auto
termination
proof (relation "measure length")
  show "wf (measure length)" by simp
next
  fix s t r :: jsstring
  assume r: "r = dropWhile (\<lambda>c. c \<noteq> 60) s" and c: "\<not> (r = [] \<or> 62 \<notin> set r)"
  have "length (tl (dropWhile (\<lambda>c. c \<noteq> 62) (tl r))) \<le> length (dropWhile (\<lambda>c. c \<noteq> 62) (tl r))"
    by simp
  also have "\<dots> \<le> length (tl r)" by (rule length_dropWhile_le)
  also have "\<dots> < length r" using c by (cases r) auto
  also have "\<dots> \<le> length s" using r by (simp add: length_dropWhile_le)
  finally show "(tl (dropWhile (\<lambda>c. c \<noteq> 62) (tl r)), s) \<in> measure length" by simp
qed

declare pieces.simps [simp del]

section \<open>sync-service.ts: the pass\<close>



























section \<open>Change detection\<close>

text \<open>
  C1, where the code departs from it. The store holds no record for \<open>constructor\<close>, and
  \<open>needsSync\<close> answers false for it at every remote version, because the lookup finds
  the member inherited from \<open>Object.prototype\<close>. For every identifier that is not the
  name of such a member, \<open>needsSync\<close> is true exactly when the page has no record or the
  remote version is strictly greater than the recorded one; with a record, whatever the
  identifier, the answer is the comparison of the versions, so an equal or lower version
  gives false; and rewriting every timestamp of the store (the records' \<open>lastUpdated\<close> and
  the global watermark) does not change the answer.
\<close>

theorem needsSync_inherited_member_not_new:
  "syncState DEFAULT_PLUGIN_DATA (js ''constructor'') = None
   \<and> needsSync DEFAULT_PLUGIN_DATA (js ''constructor'') v = False
   \<and> (pid \<notin> set Object_prototype_members
        \<longrightarrow> needsSync d pid v
            = (syncState d pid = None \<or> (\<exists>r. syncState d pid = Some r \<and> version r < v)))
   \<and> (\<forall>r. syncState d pid = Some r \<longrightarrow> needsSync d pid v = (version r < v))
   \<and> (\<forall>r. syncState d pid = Some r \<and> v \<le> version r \<longrightarrow> \<not> needsSync d pid v)
   \<and> needsSync (d\<lparr>lastGlobalSyncTime := t,
                   syncState := map_option (lastUpdated_update f) \<circ> syncState d\<rparr>) pid v
       = needsSync d pid v"
proof -
  have c: "js ''constructor'' \<in> set Object_prototype_members"
    by (simp add: Object_prototype_members_def)
  have "needsSync DEFAULT_PLUGIN_DATA (js ''constructor'') v = False"
    using c by (simp add: needsSync_def getPageState_def DEFAULT_PLUGIN_DATA_def)
  then show ?thesis
    by (auto simp: needsSync_def getPageState_def DEFAULT_PLUGIN_DATA_def split: option.splits)
qed

lemma id_101_not_inherited: "js ''101'' \<notin> set Object_prototype_members"
  by (simp add: Object_prototype_members_def js_def)

theorem needsSync_inherited_member_not_new_witness:
  "(let r = \<lparr>pageId = js ''101'', localPath = js ''Sync/A.md'', version = 3, lastUpdated = 7\<rparr>;
        d = DEFAULT_PLUGIN_DATA\<lparr>syncState := [js ''101'' \<mapsto> r]\<rparr>
    in js ''101'' \<notin> set Object_prototype_members
       \<and> syncState d (js ''101'') = Some r \<and> (3::int) \<le> version r
       \<and> \<not> needsSync d (js ''101'') 3 \<and> \<not> needsSync d (js ''101'') 2
       \<and> needsSync d (js ''101'') 4
       \<and> needsSync (d\<lparr>syncState := Map.empty\<rparr>) (js ''101'') 0)"
  using needsSync_inherited_member_not_new
    [where d = "DEFAULT_PLUGIN_DATA\<lparr>syncState := [js ''101'' \<mapsto>
           \<lparr>pageId = js ''101'', localPath = js ''Sync/A.md'', version = 3, lastUpdated = 7\<rparr>]\<rparr>"
       and pid = "js ''101''" and v = 3 and t = 0 and f = id]
    needsSync_inherited_member_not_new
    [where d = "DEFAULT_PLUGIN_DATA\<lparr>syncState := [js ''101'' \<mapsto>
           \<lparr>pageId = js ''101'', localPath = js ''Sync/A.md'', version = 3, lastUpdated = 7\<rparr>]\<rparr>"
       and pid = "js ''101''" and v = 2 and t = 0 and f = id]
    needsSync_inherited_member_not_new
    [where d = "DEFAULT_PLUGIN_DATA\<lparr>syncState := [js ''101'' \<mapsto>
           \<lparr>pageId = js ''101'', localPath = js ''Sync/A.md'', version = 3, lastUpdated = 7\<rparr>]\<rparr>"
       and pid = "js ''101''" and v = 4 and t = 0 and f = id]
    needsSync_inherited_member_not_new
    [where d = "DEFAULT_PLUGIN_DATA\<lparr>syncState := Map.empty\<rparr>"
       and pid = "js ''101''" and v = 0 and t = 0 and f = id]
    id_101_not_inherited
  by (simp add: Let_def DEFAULT_PLUGIN_DATA_def)

section \<open>Clearing the store\<close>

text \<open>
  C9, as the code has it. After \<open>clearAllStates\<close> the store holds no page record and
  the watermark is zero, whatever the store held before and whether or not the save
  callback rejects; the synced root ids are left as they were.
\<close>

theorem clearAllStates_resets_records_and_watermark:
  "clearAllStates saveCallback d w = (r, d', w')
     \<Longrightarrow> syncState d' = Map.empty \<and> dom (syncState d') = {}
         \<and> lastGlobalSyncTime d' = 0
         \<and> getSyncedRootIds d' = getSyncedRootIds d"
  by (auto simp: clearAllStates_def getSyncedRootIds_def Let_def split: prod.splits)

theorem clearAllStates_resets_records_and_watermark_witness:
  "(let d = \<lparr>syncState = [js ''101'' \<mapsto>
               \<lparr>pageId = js ''101'', localPath = js ''Sync/A.md'', version = 3, lastUpdated = 7\<rparr>],
             lastGlobalSyncTime = 1700000000000, syncedRootIds = [js ''100'']\<rparr>;
        (r, d', w') = clearAllStates (\<lambda>_ w. (Inr (), Suc w)) d (0::nat)
    in r = Inr () \<and> w' = 1 \<and> dom (syncState d') = {} \<and> lastGlobalSyncTime d' = 0)"
  using clearAllStates_resets_records_and_watermark
    [of "\<lambda>_ w. (Inr (), Suc w)"
        "\<lparr>syncState = [js ''101'' \<mapsto>
            \<lparr>pageId = js ''101'', localPath = js ''Sync/A.md'', version = 3, lastUpdated = 7\<rparr>],
          lastGlobalSyncTime = 1700000000000, syncedRootIds = [js ''100'']\<rparr>"
        "0::nat"]
  by (simp add: clearAllStates_def Let_def)

text \<open>
  C9, as the spec states it, fails: a store that holds the synced root id 100 still holds
  it after \<open>clearAllStates\<close>.
\<close>

theorem clearAllStates_keeps_synced_roots_counterexample:
  "getSyncedRootIds (fst (snd (clearAllStates (\<lambda>_ w. (Inr (), w))
       \<lparr>syncState = Map.empty, lastGlobalSyncTime = 5, syncedRootIds = [js ''100'']\<rparr> ())))
     = [js ''100'']
   \<and> js ''100'' \<noteq> []"
  by (simp add: clearAllStates_def getSyncedRootIds_def Let_def js_def)

section \<open>File names\<close>

lemma is_ws_32 [simp]: "is_ws 32" by (simp add: is_ws_def)
lemma is_ws_95 [simp]: "\<not> is_ws 95" by (simp add: is_ws_def)
lemma is_reserved_not_ws: "is_reserved c \<Longrightarrow> \<not> is_ws c"
  by (auto simp: is_reserved_def is_ws_def)

lemma collapse_ws_id: "\<forall>c\<in>set s. \<not> is_ws c \<Longrightarrow> collapse_ws s = s"
  by (induction s) auto

lemma collapse_ws_append: "\<forall>c\<in>set xs. \<not> is_ws c \<Longrightarrow> collapse_ws (xs @ ys) = xs @ collapse_ws ys"
  by (induction xs) auto

lemma collapse_ws_Nil_iff [simp]: "collapse_ws s = [] \<longleftrightarrow> s = []"
  by (cases s) auto

lemma dropWhile_single_spaced: "single_spaced xs \<Longrightarrow> single_spaced (dropWhile P xs)"
  by (induction xs rule: single_spaced.induct) auto

lemma take_single_spaced: "single_spaced xs \<Longrightarrow> single_spaced (take n xs)"
proof (induction xs arbitrary: n rule: single_spaced.induct)
  case 1 then show ?case by simp
next
  case (2 c) then show ?case by (cases n) auto
next
  case (3 c d cs)
  show ?case
  proof (cases n)
    case 0 then show ?thesis by simp
  next
    case (Suc m)
    have "single_spaced (take m (d # cs))" using 3 by simp
    then show ?thesis using Suc 3(2) by (cases m) auto
  qed
qed

lemma strip_trailing_take: "strip_trailing_ws s = take (length s - length (takeWhile is_ws (rev s))) s"
  by (simp add: strip_trailing_ws_def dropWhile_eq_drop rev_drop)

lemma collapse_single_spaced: "single_spaced (collapse_ws s)"
proof (induction s rule: collapse_ws.induct)
  case 1 then show ?case by simp
next
  case (2 c cs)
  show ?case
  proof (cases "is_ws c")
    case True
    show ?thesis
    proof (cases "dropWhile is_ws cs")
      case Nil then show ?thesis using True by (simp del: dropWhile_eq_Nil_conv)
    next
      case (Cons d ds)
      then have "\<not> is_ws d" by (metis hd_dropWhile list.sel(1) list.distinct(1))
      then show ?thesis using True Cons 2 by simp
    qed
  next
    case False
    then show ?thesis using 2 by (cases cs) auto
  qed
qed

lemma trim_single_spaced: "single_spaced xs \<Longrightarrow> single_spaced (trim xs)"
  by (simp add: trim_def strip_trailing_take strip_leading_ws_def dropWhile_single_spaced take_single_spaced)

lemma single_spaced_nth:
  "single_spaced xs \<Longrightarrow> Suc i < length xs \<Longrightarrow> is_ws (xs ! i) \<Longrightarrow> xs ! i = 32 \<and> \<not> is_ws (xs ! Suc i)"
proof (induction xs arbitrary: i rule: single_spaced.induct)
  case (3 c d cs)
  then show ?case by (cases i) auto
qed auto

lemma trim_hd_last: "trim s \<noteq> [] \<Longrightarrow> \<not> is_ws (hd (trim s)) \<and> \<not> is_ws (last (trim s))"
proof -
  assume ne: "trim s \<noteq> []"
  let ?t = "dropWhile is_ws s"
  have t: "trim s = rev (dropWhile is_ws (rev ?t))" by (simp add: trim_def strip_trailing_ws_def strip_leading_ws_def)
  with ne have ne2: "dropWhile is_ws (rev ?t) \<noteq> []" by simp
  then have l: "\<not> is_ws (hd (dropWhile is_ws (rev ?t)))" by (rule hd_dropWhile)
  have "last (trim s) = hd (dropWhile is_ws (rev ?t))" using ne2 t by (simp add: last_rev)
  with l have L: "\<not> is_ws (last (trim s))" by simp
  have tne: "?t \<noteq> []"
  proof
    assume "?t = []"
    with ne2 show False by (simp del: dropWhile_eq_Nil_conv)
  qed
  then have h: "\<not> is_ws (hd ?t)" by (rule hd_dropWhile)
  have "trim s = take (length ?t - length (takeWhile is_ws (rev ?t))) ?t"
    by (simp only: trim_def strip_leading_ws_def strip_trailing_take)
  then have "hd (trim s) = hd ?t" using ne by (metis hd_take take_eq_Nil gr0I)
  with h L show ?thesis by simp
qed



lemma trim_untitled: "trim (js ''untitled'') = js ''untitled''"
  by (simp add: trim_def strip_trailing_ws_def strip_leading_ws_def js_def is_ws_def)

lemma sanitize_out:
  "sanitizeFileName s =
     (if trim (take 200 (pre_truncation s)) = [] then js ''untitled''
      else trim (take 200 (pre_truncation s)))"
proof -
  have idem: "trim (trim x) = trim x" for x
  proof (cases "trim x = []")
    case True
    have "trim [] = []" by (simp add: trim_def strip_trailing_ws_def strip_leading_ws_def)
    with True show ?thesis by simp
  next
    case False
    from trim_hd_last[OF False] have h: "\<not> is_ws (hd (trim x))" and l: "\<not> is_ws (last (trim x))" by auto
    have 1: "strip_leading_ws (trim x) = trim x" using False h
      by (cases "trim x") (auto simp: strip_leading_ws_def)
    have "rev (trim x) \<noteq> []" "\<not> is_ws (hd (rev (trim x)))" using False l by (auto simp: hd_rev)
    then have "dropWhile is_ws (rev (trim x)) = rev (trim x)" by (cases "rev (trim x)") auto
    then have 2: "strip_trailing_ws (trim x) = trim x" by (simp add: strip_trailing_ws_def)
    show ?thesis using 1 2 by (simp add: trim_def[of "trim x"])
  qed
  show ?thesis
    by (simp add: sanitizeFileName_def Let_def trim_untitled idem)
qed

lemma trim_id: "x \<noteq> [] \<Longrightarrow> \<not> is_ws (hd x) \<Longrightarrow> \<not> is_ws (last x) \<Longrightarrow> trim x = x"
proof -
  assume ne: "x \<noteq> []" and h: "\<not> is_ws (hd x)" and l: "\<not> is_ws (last x)"
  have 1: "strip_leading_ws x = x" using ne h by (cases x) (auto simp: strip_leading_ws_def)
  have "rev x \<noteq> []" "\<not> is_ws (hd (rev x))" using ne l by (auto simp: hd_rev)
  then have "dropWhile is_ws (rev x) = rev x" by (cases "rev x") auto
  then have 2: "strip_trailing_ws x = x" by (simp add: strip_trailing_ws_def)
  show ?thesis using 1 2 by (simp add: trim_def)
qed

lemma filter_dropWhile_ws: "filter (\<lambda>c. \<not> is_ws c) (dropWhile is_ws xs) = filter (\<lambda>c. \<not> is_ws c) xs"
  by (induction xs) auto

lemma filter_strip_trailing: "filter (\<lambda>c. \<not> is_ws c) (strip_trailing_ws xs) = filter (\<lambda>c. \<not> is_ws c) xs"
proof -
  have "filter (\<lambda>c. \<not> is_ws c) (rev (dropWhile is_ws (rev xs)))
        = rev (filter (\<lambda>c. \<not> is_ws c) (dropWhile is_ws (rev xs)))" by (simp add: rev_filter)
  also have "\<dots> = rev (filter (\<lambda>c. \<not> is_ws c) (rev xs))" by (simp only: filter_dropWhile_ws)
  also have "\<dots> = filter (\<lambda>c. \<not> is_ws c) xs" by (simp add: rev_filter)
  finally show ?thesis by (simp add: strip_trailing_ws_def)
qed

lemma filter_trim: "filter (\<lambda>c. \<not> is_ws c) (trim xs) = filter (\<lambda>c. \<not> is_ws c) xs"
  by (simp add: trim_def filter_strip_trailing strip_leading_ws_def filter_dropWhile_ws)

lemma filter_collapse: "filter (\<lambda>c. \<not> is_ws c) (collapse_ws xs) = filter (\<lambda>c. \<not> is_ws c) xs"
  by (induction xs rule: collapse_ws.induct) (auto simp: filter_dropWhile_ws)

lemma is_ws_repl: "is_ws (repl c) = is_ws c"
  by (auto simp: repl_def dest: is_reserved_not_ws)

lemma filter_replace: "filter (\<lambda>c. \<not> is_ws c) (replace_reserved xs) = map repl (filter (\<lambda>c. \<not> is_ws c) xs)"
  by (induction xs) (auto simp: replace_reserved_def repl_def dest: is_reserved_not_ws)

lemma filter_pre: "filter (\<lambda>c. \<not> is_ws c) (pre_truncation s) = map repl (filter (\<lambda>c. \<not> is_ws c) s)"
  by (simp add: pre_truncation_def filter_collapse filter_strip_trailing strip_leading_ws_def
        filter_dropWhile_ws filter_replace)

lemma length_collapse: "length (collapse_ws xs) \<le> length xs"
proof (induction xs rule: collapse_ws.induct)
  case (2 c cs)
  have "length (dropWhile is_ws cs) \<le> length cs" by (rule length_dropWhile_le)
  with 2 show ?case by auto
qed simp

lemma length_strip_trailing: "length (strip_trailing_ws xs) \<le> length xs"
  by (simp add: strip_trailing_take)

lemma length_trim: "length (trim xs) \<le> length xs"
proof -
  have "length (trim xs) \<le> length (strip_leading_ws xs)" by (simp add: trim_def length_strip_trailing)
  also have "\<dots> \<le> length xs" by (simp add: strip_leading_ws_def length_dropWhile_le)
  finally show ?thesis .
qed

lemma length_pre: "length (pre_truncation s) \<le> length s"
proof -
  have "length (pre_truncation s) \<le> length (trim (replace_reserved s))"
    by (simp add: pre_truncation_def trim_def length_collapse)
  also have "\<dots> \<le> length (replace_reserved s)" by (rule length_trim)
  finally show ?thesis by (simp add: replace_reserved_def)
qed

lemma pre_hd: "pre_truncation s \<noteq> [] \<Longrightarrow> \<not> is_ws (hd (pre_truncation s))"
proof -
  assume ne: "pre_truncation s \<noteq> []"
  let ?t = "trim (replace_reserved s)"
  have p: "pre_truncation s = collapse_ws ?t" by (simp add: pre_truncation_def trim_def)
  with ne have tne: "?t \<noteq> []" by auto
  from trim_hd_last[OF tne] have "\<not> is_ws (hd ?t)" by simp
  then show ?thesis using tne p by (cases ?t) auto
qed

lemma blank_filter: "blank s \<longleftrightarrow> filter (\<lambda>c. \<not> is_ws c) s = []"
  by (auto simp: blank_def filter_empty_conv)

lemma nonblank_trim_take: "\<not> blank s \<Longrightarrow> trim (take 200 (pre_truncation s)) \<noteq> []"
proof -
  assume nb: "\<not> blank s"
  then have "filter (\<lambda>c. \<not> is_ws c) (pre_truncation s) \<noteq> []" by (simp add: filter_pre blank_filter)
  then have ne: "pre_truncation s \<noteq> []" by auto
  from pre_hd[OF ne] obtain c cs where c: "pre_truncation s = c # cs" "\<not> is_ws c"
    using ne by (cases "pre_truncation s") auto
  then have "filter (\<lambda>c. \<not> is_ws c) (take 200 (pre_truncation s)) \<noteq> []" by simp
  then have "filter (\<lambda>c. \<not> is_ws c) (trim (take 200 (pre_truncation s))) \<noteq> []"
    using filter_trim[of "take 200 (pre_truncation s)"] by simp
  then show ?thesis by auto
qed

lemma blank_pre: "blank s \<Longrightarrow> pre_truncation s = []"
proof -
  assume "blank s"
  then have "filter (\<lambda>c. \<not> is_ws c) (pre_truncation s) = []" by (simp add: filter_pre blank_filter)
  then have "blank (pre_truncation s)" by (simp add: blank_filter)
  then show ?thesis using pre_hd[of s] by (cases "pre_truncation s") (auto simp: blank_def)
qed




lemma pre_id: "s \<noteq> [] \<Longrightarrow> \<not> is_ws (hd s) \<Longrightarrow> \<not> is_ws (last s) \<Longrightarrow> \<forall>c\<in>set s. \<not> is_reserved c
   \<Longrightarrow> pre_truncation s = collapse_ws s"
proof -
  assume a: "s \<noteq> []" "\<not> is_ws (hd s)" "\<not> is_ws (last s)" and r: "\<forall>c\<in>set s. \<not> is_reserved c"
  have "replace_reserved s = s" using r by (simp add: replace_reserved_def repl_def map_idI)
  moreover have "trim s = s" using a by (rule trim_id)
  ultimately show ?thesis by (simp add: pre_truncation_def trim_def)
qed


lemma sanitize_space_at_200:
  assumes xs: "\<forall>c\<in>set xs. \<not> is_ws c \<and> \<not> is_reserved c" and ys: "\<forall>c\<in>set ys. \<not> is_ws c \<and> \<not> is_reserved c"
    and len: "length xs = 199" and ne: "ys \<noteq> []"
  shows "pre_truncation (xs @ 32 # ys) = xs @ 32 # ys" and "sanitizeFileName (xs @ 32 # ys) = xs"
proof -
  let ?s = "xs @ 32 # ys"
  have xne: "xs \<noteq> []" using len by auto
  have r32: "\<not> is_reserved 32" by (simp add: is_reserved_def)
  have "pre_truncation ?s = collapse_ws ?s"
    using xs ys xne ne r32 by (intro pre_id) (auto simp: hd_append)
  moreover have "dropWhile is_ws ys = ys" using ys ne by (cases ys) auto
  ultimately show p: "pre_truncation ?s = ?s" using xs ys
    by (simp add: collapse_ws_append collapse_ws_id)
  have t: "take 200 ?s = xs @ [32]" using len by simp
  have "trim (xs @ [32]) = xs"
  proof -
    have 1: "strip_leading_ws (xs @ [32]) = xs @ [32]" using xs xne
      by (cases xs) (auto simp: strip_leading_ws_def)
    have "\<forall>c\<in>set (rev xs). \<not> is_ws c" using xs by simp
    then have "dropWhile is_ws (rev xs) = rev xs" by (metis dropWhile_eq_self_iff hd_in_set)
    then have 2: "strip_trailing_ws (xs @ [32]) = xs" by (simp add: strip_trailing_ws_def)
    show ?thesis using 1 2 by (simp add: trim_def)
  qed
  then show "sanitizeFileName ?s = xs" using xne by (simp only: sanitize_out p t) simp
qed


lemma sanitize_no_reserved: "\<forall>c\<in>set (sanitizeFileName s). \<not> is_reserved c"
proof -
  have 1: "set (collapse_ws x) \<subseteq> insert 32 (set x)" for x
  proof (induction x rule: collapse_ws.induct)
    case (2 c cs)
    have "set (dropWhile is_ws cs) \<subseteq> set cs" by (auto dest: set_dropWhileD)
    with 2 show ?case by auto
  qed simp
  have 2: "set (strip_trailing_ws x) \<subseteq> set x" for x
    by (simp add: strip_trailing_take set_take_subset)
  have 3: "set (trim x) \<subseteq> set x" for x
  proof -
    have "set (trim x) \<subseteq> set (strip_leading_ws x)" by (simp add: trim_def 2)
    also have "\<dots> \<subseteq> set x" by (auto simp: strip_leading_ws_def dest: set_dropWhileD)
    finally show ?thesis .
  qed
  have 4: "\<forall>c\<in>set (replace_reserved s). \<not> is_reserved c"
    by (auto simp: replace_reserved_def repl_def is_reserved_def)
  have r32: "\<not> is_reserved 32" by (simp add: is_reserved_def)
  have A: "set (pre_truncation s) \<subseteq> insert 32 (set (trim (replace_reserved s)))"
    using 1[of "trim (replace_reserved s)"] by (simp add: pre_truncation_def trim_def)
  have 5: "\<forall>c\<in>set (pre_truncation s). \<not> is_reserved c"
  proof
    fix c assume "c \<in> set (pre_truncation s)"
    then have "c = 32 \<or> c \<in> set (replace_reserved s)" using A 3[of "replace_reserved s"] by blast
    then show "\<not> is_reserved c" using 4 r32 by blast
  qed
  have "set (trim (take 200 (pre_truncation s))) \<subseteq> set (pre_truncation s)"
    using 3[of "take 200 (pre_truncation s)"] set_take_subset[of 200 "pre_truncation s"] by blast
  with 5 have 6: "\<forall>c\<in>set (trim (take 200 (pre_truncation s))). \<not> is_reserved c" by blast
  have 7: "\<forall>c\<in>set (js ''untitled''). \<not> is_reserved c" by (simp add: js_def is_reserved_def)
  show ?thesis using 6 7 by (simp add: sanitize_out)
qed


lemma sanitize_shape:
  "sanitizeFileName s \<noteq> [] \<and> \<not> is_ws (hd (sanitizeFileName s)) \<and> \<not> is_ws (last (sanitizeFileName s))
   \<and> single_spaced (sanitizeFileName s) \<and> length (sanitizeFileName s) \<le> 200"
proof (cases "trim (take 200 (pre_truncation s)) = []")
  case True
  then have "sanitizeFileName s = js ''untitled''" by (simp add: sanitize_out)
  then show ?thesis by (simp add: js_def is_ws_def)
next
  case False
  then have o: "sanitizeFileName s = trim (take 200 (pre_truncation s))" by (simp add: sanitize_out)
  have "single_spaced (pre_truncation s)" by (simp add: pre_truncation_def collapse_single_spaced)
  then have ss: "single_spaced (trim (take 200 (pre_truncation s)))"
    by (intro trim_single_spaced take_single_spaced)
  have "length (trim (take 200 (pre_truncation s))) \<le> length (take 200 (pre_truncation s))"
    by (rule length_trim)
  then have "length (trim (take 200 (pre_truncation s))) \<le> 200" by simp
  with ss trim_hd_last[OF False] False show ?thesis by (simp add: o)
qed


lemma sanitize_prefix:
  "\<not> blank s \<Longrightarrow> prefix (filter (\<lambda>c. \<not> is_ws c) (sanitizeFileName s)) (map repl (filter (\<lambda>c. \<not> is_ws c) s))"
proof -
  assume nb: "\<not> blank s"
  then have o: "sanitizeFileName s = trim (take 200 (pre_truncation s))"
    using nonblank_trim_take by (simp add: sanitize_out)
  have "prefix (filter (\<lambda>c. \<not> is_ws c) (take 200 (pre_truncation s))) (filter (\<lambda>c. \<not> is_ws c) (pre_truncation s))"
    by (intro filter_mono_prefix take_is_prefix)
  then show ?thesis by (simp add: o filter_trim filter_pre)
qed


lemma sanitize_short:
  "\<not> blank s \<Longrightarrow> length s \<le> 200 \<Longrightarrow> filter (\<lambda>c. \<not> is_ws c) (sanitizeFileName s) = map repl (filter (\<lambda>c. \<not> is_ws c) s)"
proof -
  assume nb: "\<not> blank s" and l: "length s \<le> 200"
  then have o: "sanitizeFileName s = trim (take 200 (pre_truncation s))"
    using nonblank_trim_take by (simp add: sanitize_out)
  have "length (pre_truncation s) \<le> 200" using length_pre[of s] l by simp
  then show ?thesis by (simp add: o filter_trim filter_pre)
qed


lemma sanitize_exact:
  "200 \<le> length s \<Longrightarrow> pre_truncation s = s \<Longrightarrow> \<not> is_ws (s ! 199) \<Longrightarrow> sanitizeFileName s = take 200 s"
proof -
  assume l: "200 \<le> length s" and p: "pre_truncation s = s" and w: "\<not> is_ws (s ! 199)"
  have ne: "s \<noteq> []" using l by auto
  have h: "\<not> is_ws (hd s)" using pre_hd[of s] p ne by simp
  have tne: "take 200 s \<noteq> []" using ne by simp
  have "last (take 200 s) = s ! 199" using l tne by (simp add: last_conv_nth min_absorb2)
  then have "trim (take 200 s) = take 200 s" using h w tne by (intro trim_id) auto
  then show ?thesis using tne by (simp add: sanitize_out p)
qed


lemma sanitize_blank: "blank s \<Longrightarrow> sanitizeFileName s = js ''untitled''"
proof -
  assume "blank s"
  then have "pre_truncation s = []" by (rule blank_pre)
  then show ?thesis by (simp add: sanitize_out trim_def strip_trailing_ws_def strip_leading_ws_def)
qed


lemma sanitize_example: "sanitizeFileName (js ''Report: Q1/Q2'') = js ''Report_ Q1_Q2''"
  by (simp add: sanitizeFileName_def pre_truncation_def replace_reserved_def repl_def strip_leading_ws_def strip_trailing_ws_def
        trim_def js_def is_ws_def is_reserved_def Let_def)


lemma words_of_blank: "dropWhile is_ws x = [] \<Longrightarrow> words_of x = []"
  by (subst words_of.simps) simp

lemma words_of_dropWhile: "words_of (dropWhile is_ws x) = words_of x"
  by (subst words_of.simps, subst (2) words_of.simps) simp

lemma words_of_word:
  assumes "x \<noteq> []" "\<not> is_ws (hd x)"
  shows "words_of x = takeWhile (\<lambda>c. \<not> is_ws c) x
                        # words_of (dropWhile is_ws (dropWhile (\<lambda>c. \<not> is_ws c) x))"
proof -
  have "dropWhile is_ws x = x" using assms by (cases x) auto
  then show ?thesis using assms by (subst words_of.simps) (simp add: words_of_dropWhile)
qed

lemma strip_trailing_keep:
  "\<exists>c\<in>set y. \<not> is_ws c \<Longrightarrow> strip_trailing_ws (a @ y) = a @ strip_trailing_ws y"
  by (auto simp: strip_trailing_ws_def dropWhile_append)

lemma strip_trailing_blank:
  "\<forall>c\<in>set y. is_ws c \<Longrightarrow> strip_trailing_ws (a @ y) = strip_trailing_ws a"
  by (auto simp: strip_trailing_ws_def dropWhile_append)

lemma strip_trailing_word:
  assumes "\<forall>c\<in>set w. \<not> is_ws c"
  shows "strip_trailing_ws w = w"
proof -
  have "dropWhile is_ws (rev w) = rev w" using assms by (cases "rev w") auto
  then show ?thesis by (simp add: strip_trailing_ws_def)
qed

lemma collapse_ws_run:
  assumes "pre \<noteq> []" "\<forall>c\<in>set pre. is_ws c" "z = [] \<or> \<not> is_ws (hd z)"
  shows "collapse_ws (pre @ z) = 32 # collapse_ws z"
proof -
  obtain c cs where p: "pre = c # cs" using assms(1) by (cases pre) auto
  have "dropWhile is_ws (cs @ z) = z" using assms p by (cases z) (auto simp: dropWhile_append)
  then show ?thesis using assms p by simp
qed

lemma join_words: "ws \<noteq> [] \<Longrightarrow> join sep (w # ws) = w @ sep @ join sep ws"
  by (cases ws) auto

lemma collapse_words:
  "x = [] \<or> \<not> is_ws (hd x) \<Longrightarrow> collapse_ws (strip_trailing_ws x) = join [32] (words_of x)"
proof (induction "length x" arbitrary: x rule: less_induct)
  case less
  show ?case
  proof (cases "x = []")
    case True
    then show ?thesis by (simp add: words_of_blank strip_trailing_ws_def)
  next
    case False
    then have h: "\<not> is_ws (hd x)" using less.prems by simp
    define w where "w = takeWhile (\<lambda>c. \<not> is_ws c) x"
    define rest where "rest = dropWhile (\<lambda>c. \<not> is_ws c) x"
    define pre where "pre = takeWhile is_ws rest"
    define y where "y = dropWhile is_ws rest"
    have x: "x = w @ rest" and r: "rest = pre @ y" by (simp_all add: w_def rest_def pre_def y_def)
    have wn: "\<forall>c\<in>set w. \<not> is_ws c" unfolding w_def by (auto dest: set_takeWhileD)
    have wne: "w \<noteq> []" using False h unfolding w_def by (cases x) auto
    have pw: "\<forall>c\<in>set pre. is_ws c" unfolding pre_def by (auto dest: set_takeWhileD)
    have wo: "words_of x = w # words_of y"
      using words_of_word[OF False h] by (simp add: w_def y_def rest_def)
    have ly: "length y < length x" using x r wne by simp
    have hy: "y = [] \<or> \<not> is_ws (hd y)"
    proof (cases "y = []")
      case False
      then have "dropWhile is_ws rest \<noteq> []" by (simp add: y_def)
      from hd_dropWhile[OF this] show ?thesis by (simp add: y_def)
    qed simp
    note ih = less.hyps[OF ly hy]
    show ?thesis
    proof (cases "y = []")
      case True
      then have "strip_trailing_ws x = strip_trailing_ws w"
        using x r pw by (simp add: strip_trailing_blank)
      then have "collapse_ws (strip_trailing_ws x) = w"
        using wn by (simp add: strip_trailing_word collapse_ws_id)
      moreover have "words_of y = []" using True by (simp add: words_of_blank)
      ultimately show ?thesis using wo by simp
    next
      case False
      with hy have hy': "\<not> is_ws (hd y)" by simp
      then have ex: "\<exists>c\<in>set y. \<not> is_ws c" using False by (cases y) auto
      have pne: "pre \<noteq> []"
      proof
        assume "pre = []"
        then have ry: "rest = y" using r by simp
        then have "dropWhile (\<lambda>c. \<not> is_ws c) x \<noteq> []" using False by (simp add: rest_def)
        from hd_dropWhile[OF this] have "is_ws (hd rest)" by (simp add: rest_def)
        with hy' ry show False by simp
      qed
      define z where "z = strip_trailing_ws y"
      have "x = (w @ pre) @ y" using x r by simp
      then have "strip_trailing_ws x = (w @ pre) @ z"
        using strip_trailing_keep[OF ex, of "w @ pre"] by (simp add: z_def)
      then have st: "strip_trailing_ws x = w @ pre @ z" by simp
      have zh: "z = [] \<or> \<not> is_ws (hd z)"
      proof -
        obtain c cs where y: "y = c # cs" using False by (cases y) auto
        have "strip_trailing_ws ([c] @ cs) = [c] @ strip_trailing_ws cs \<or> strip_trailing_ws ([c] @ cs) = strip_trailing_ws [c]"
          using strip_trailing_keep[of cs "[c]"] strip_trailing_blank[of cs "[c]"] by blast
        moreover have "strip_trailing_ws [c] = [c]" using hy' y by (simp add: strip_trailing_ws_def)
        ultimately have "hd z = c" by (auto simp: z_def y)
        then show ?thesis using hy' y by simp
      qed
      have "collapse_ws (strip_trailing_ws x) = w @ collapse_ws (pre @ z)"
        using wn by (simp add: st collapse_ws_append)
      also have "\<dots> = w @ 32 # collapse_ws z" using collapse_ws_run[OF pne pw zh] by simp
      also have "\<dots> = w @ [32] @ join [32] (words_of y)" using ih by (simp add: z_def)
      also have "\<dots> = join [32] (w # words_of y)"
      proof -
        have "words_of y \<noteq> []" using words_of_word[OF False hy'] by simp
        then show ?thesis by (simp add: join_words)
      qed
      finally show ?thesis using wo by simp
    qed
  qed
qed

lemma pre_truncation_words: "pre_truncation s = join [32] (words_of (map repl s))"
proof -
  let ?x = "dropWhile is_ws (replace_reserved s)"
  have "?x = [] \<or> \<not> is_ws (hd ?x)" using hd_dropWhile[of is_ws "replace_reserved s"] by blast
  from collapse_words[OF this] show ?thesis
    by (simp add: pre_truncation_def strip_leading_ws_def words_of_dropWhile replace_reserved_def)
qed

lemma pre_truncation_spaced: "pre_truncation s = spaced_words s"
  by (simp add: pre_truncation_words spaced_words_def)

lemma trim_snoc_ws:
  assumes "a \<noteq> []" "\<not> is_ws (hd a)" "\<not> is_ws (last a)" "is_ws c"
  shows "trim (a @ [c]) = a"
proof -
  have 1: "strip_leading_ws (a @ [c]) = a @ [c]" using assms(1,2)
    by (cases a) (auto simp: strip_leading_ws_def)
  have "strip_leading_ws a = a" using assms(1,2) by (cases a) (auto simp: strip_leading_ws_def)
  moreover have "trim a = a" using assms(1-3) by (rule trim_id)
  ultimately have "strip_trailing_ws a = a" by (simp add: trim_def)
  moreover have "strip_trailing_ws (a @ [c]) = strip_trailing_ws a"
    using assms(4) by (intro strip_trailing_blank) simp
  ultimately show ?thesis using 1 by (simp add: trim_def)
qed

lemma sanitize_cut:
  assumes nb: "\<not> blank s"
  shows "length (spaced_words s) \<le> 200 \<Longrightarrow> sanitizeFileName s = spaced_words s"
    and "200 < length (spaced_words s) \<Longrightarrow> \<not> is_ws (spaced_words s ! 199)
           \<Longrightarrow> sanitizeFileName s = take 200 (spaced_words s)"
    and "200 < length (spaced_words s) \<Longrightarrow> is_ws (spaced_words s ! 199)
           \<Longrightarrow> sanitizeFileName s = take 199 (spaced_words s)"
proof -
  let ?p = "spaced_words s"
  have p: "pre_truncation s = ?p" by (rule pre_truncation_spaced)
  have o: "sanitizeFileName s = trim (take 200 ?p)"
    using nonblank_trim_take[OF nb] by (simp add: sanitize_out p)
  have "filter (\<lambda>c. \<not> is_ws c) (pre_truncation s) \<noteq> []" using nb by (simp add: filter_pre blank_filter)
  then have ne: "?p \<noteq> []" using p by auto
  have h: "\<not> is_ws (hd ?p)" using pre_hd[of s] ne p by simp
  have ss: "single_spaced ?p" using collapse_single_spaced by (simp add: p[symmetric] pre_truncation_def)
  have l: "\<not> is_ws (last ?p)"
  proof -
    have "?p = collapse_ws (trim (replace_reserved s))" by (simp add: p[symmetric] pre_truncation_def trim_def)
    moreover have "trim (replace_reserved s) \<noteq> []" using ne calculation by auto
    from trim_hd_last[OF this] have "\<not> is_ws (last (trim (replace_reserved s)))" by simp
    moreover have "x \<noteq> [] \<Longrightarrow> \<not> is_ws (last x) \<Longrightarrow> \<not> is_ws (last (collapse_ws x))" for x
    proof (induction x rule: collapse_ws.induct)
      case 1
      then show ?case by simp
    next
      case (2 c cs)
      show ?case
      proof (cases "is_ws c")
        case True
        have d: "dropWhile is_ws cs \<noteq> []"
        proof
          assume e: "dropWhile is_ws cs = []"
          then have "\<forall>x\<in>set cs. is_ws x" by (simp add: dropWhile_eq_Nil_conv)
          then have "is_ws (last (c # cs))" using True by (cases "cs = []") auto
          with "2.prems"(2) show False by simp
        qed
        have "last (dropWhile is_ws cs) = last cs"
          using d by (metis last_appendR takeWhile_dropWhile_id)
        moreover have "cs \<noteq> []" using d by auto
        ultimately have "\<not> is_ws (last (dropWhile is_ws cs))" using "2.prems"(2) by simp
        from 2(1)[OF True d this] show ?thesis using True d by simp
      next
        case False
        show ?thesis
        proof (cases "cs = []")
          case True
          then show ?thesis using False by simp
        next
          case ne: False
          then have "\<not> is_ws (last cs)" using "2.prems"(2) by simp
          from 2(2)[OF False ne this] show ?thesis using False ne by simp
        qed
      qed
    qed
    ultimately show ?thesis using \<open>trim (replace_reserved s) \<noteq> []\<close> by metis
  qed
  show "sanitizeFileName s = ?p" if "length ?p \<le> 200"
    using that trim_id[OF ne h l] by (simp add: o)
  show "sanitizeFileName s = take 200 ?p" if "200 < length ?p" "\<not> is_ws (?p ! 199)"
  proof -
    have tne: "take 200 ?p \<noteq> []" using ne by simp
    have "last (take 200 ?p) = ?p ! 199" using that(1) tne by (simp add: last_conv_nth min_absorb2)
    then have "trim (take 200 ?p) = take 200 ?p" using h that(2) tne by (intro trim_id) auto
    then show ?thesis by (simp add: o)
  qed
  show "sanitizeFileName s = take 199 ?p" if "200 < length ?p" "is_ws (?p ! 199)"
  proof -
    have "take (Suc 199) ?p = take 199 ?p @ [?p ! 199]"
      using that(1) by (intro take_Suc_conv_app_nth) simp
    then have t: "take 200 ?p = take 199 ?p @ [?p ! 199]" by simp
    have ane: "take 199 ?p \<noteq> []" using ne by simp
    have ah: "\<not> is_ws (hd (take 199 ?p))" using h ne by simp
    have "\<not> is_ws (?p ! 198)"
    proof
      assume "is_ws (?p ! 198)"
      moreover have "Suc 198 < length ?p" using that(1) by simp
      ultimately have "\<not> is_ws (?p ! Suc 198)" using single_spaced_nth[OF ss] by blast
      then show False using that(2) by simp
    qed
    moreover have "last (take 199 ?p) = ?p ! 198" using that(1) ane by (simp add: last_conv_nth min_absorb2)
    ultimately have al: "\<not> is_ws (last (take 199 ?p))" by simp
    show ?thesis using trim_snoc_ws[OF ane ah al that(2)] by (simp add: o t)
  qed
qed

lemma spaced_words_blank: "blank s \<Longrightarrow> spaced_words s = []"
  using blank_pre[of s] by (simp add: pre_truncation_spaced)

lemma words_of_example: "words_of (js ''  My   Page '') = [js ''My'', js ''Page'']"
  by (simp add: words_of.simps Let_def js_def is_ws_def)

lemma spaced_words_example: "spaced_words (js ''  My   Page: a/b '') = js ''My Page_ a_b''"
  by (simp add: spaced_words_def words_of.simps Let_def js_def is_ws_def repl_def is_reserved_def)

text \<open>
  C5, as the code has it. The result of \<open>sanitizeFileName\<close> is fixed for every name. A
  name of whitespace only gives \<open>untitled\<close>. Otherwise take the words of the name, with
  each of the nine reserved characters replaced by an underscore and every other code unit
  (the dot among them) kept, and join them by single spaces: this string has no whitespace
  at either end and one space for each whitespace run inside the name. When it has at most
  200 code units it is the result; when it is longer, the result is its first 200 code
  units if the 200th is not a space, and its first 199 if it is, because the cut string is
  trimmed again. So the result contains no reserved character, is not empty, has no
  whitespace at either end, has only single spaces as whitespace and at most 200 code
  units, and its non-whitespace code units are those of the name, reserved ones replaced,
  in order and cut by the length limit only. \<open>Report: Q1/Q2\<close> gives \<open>Report_ Q1_Q2\<close>.
\<close>

theorem sanitizeFileName_rules:
  "(\<forall>c\<in>set (sanitizeFileName s). \<not> is_reserved c)
   \<and> sanitizeFileName s \<noteq> []
   \<and> \<not> is_ws (hd (sanitizeFileName s)) \<and> \<not> is_ws (last (sanitizeFileName s))
   \<and> (\<forall>i. Suc i < length (sanitizeFileName s) \<and> is_ws (sanitizeFileName s ! i)
          \<longrightarrow> sanitizeFileName s ! i = 32 \<and> \<not> is_ws (sanitizeFileName s ! Suc i))
   \<and> length (sanitizeFileName s) \<le> 200
   \<and> (200 \<le> length s \<and> pre_truncation s = s \<and> \<not> is_ws (s ! 199)
          \<longrightarrow> sanitizeFileName s = take 200 s)
   \<and> (blank s \<longrightarrow> sanitizeFileName s = js ''untitled'')
   \<and> (\<not> blank s \<longrightarrow> prefix (filter (\<lambda>c. \<not> is_ws c) (sanitizeFileName s))
                              (map repl (filter (\<lambda>c. \<not> is_ws c) s)))
   \<and> (\<not> blank s \<and> length s \<le> 200
          \<longrightarrow> filter (\<lambda>c. \<not> is_ws c) (sanitizeFileName s) = map repl (filter (\<lambda>c. \<not> is_ws c) s))
   \<and> repl (of_char CHR ''.'') = of_char CHR ''.''
   \<and> sanitizeFileName (js ''Report: Q1/Q2'') = js ''Report_ Q1_Q2''
   \<and> pre_truncation s = spaced_words s
   \<and> (\<not> blank s \<and> length (spaced_words s) \<le> 200 \<longrightarrow> sanitizeFileName s = spaced_words s)
   \<and> (200 < length (spaced_words s) \<and> \<not> is_ws (spaced_words s ! 199)
          \<longrightarrow> sanitizeFileName s = take 200 (spaced_words s))
   \<and> (200 < length (spaced_words s) \<and> is_ws (spaced_words s ! 199)
          \<longrightarrow> sanitizeFileName s = take 199 (spaced_words s))"
proof -
  have ss: "single_spaced (sanitizeFileName s)" using sanitize_shape[of s] by simp
  have adj: "\<forall>i. Suc i < length (sanitizeFileName s) \<and> is_ws (sanitizeFileName s ! i)
          \<longrightarrow> sanitizeFileName s ! i = 32 \<and> \<not> is_ws (sanitizeFileName s ! Suc i)"
    using single_spaced_nth[OF ss] by blast
  have dot: "repl (of_char CHR ''.'') = of_char CHR ''.''" by (simp add: repl_def is_reserved_def)
  have nb: "\<not> blank s" if "200 < length (spaced_words s)"
    using that spaced_words_blank[of s] by auto
  have c1: "\<not> blank s \<and> length (spaced_words s) \<le> 200 \<longrightarrow> sanitizeFileName s = spaced_words s"
    using sanitize_cut(1)[of s] by blast
  have c2: "200 < length (spaced_words s) \<and> \<not> is_ws (spaced_words s ! 199)
          \<longrightarrow> sanitizeFileName s = take 200 (spaced_words s)"
    using sanitize_cut(2)[of s] nb by blast
  have c3: "200 < length (spaced_words s) \<and> is_ws (spaced_words s ! 199)
          \<longrightarrow> sanitizeFileName s = take 199 (spaced_words s)"
    using sanitize_cut(3)[of s] nb by blast
  have old: "(\<forall>c\<in>set (sanitizeFileName s). \<not> is_reserved c)
   \<and> sanitizeFileName s \<noteq> []
   \<and> \<not> is_ws (hd (sanitizeFileName s)) \<and> \<not> is_ws (last (sanitizeFileName s))
   \<and> (\<forall>i. Suc i < length (sanitizeFileName s) \<and> is_ws (sanitizeFileName s ! i)
          \<longrightarrow> sanitizeFileName s ! i = 32 \<and> \<not> is_ws (sanitizeFileName s ! Suc i))
   \<and> length (sanitizeFileName s) \<le> 200
   \<and> (200 \<le> length s \<and> pre_truncation s = s \<and> \<not> is_ws (s ! 199)
          \<longrightarrow> sanitizeFileName s = take 200 s)
   \<and> (blank s \<longrightarrow> sanitizeFileName s = js ''untitled'')
   \<and> (\<not> blank s \<longrightarrow> prefix (filter (\<lambda>c. \<not> is_ws c) (sanitizeFileName s))
                              (map repl (filter (\<lambda>c. \<not> is_ws c) s)))
   \<and> (\<not> blank s \<and> length s \<le> 200
          \<longrightarrow> filter (\<lambda>c. \<not> is_ws c) (sanitizeFileName s) = map repl (filter (\<lambda>c. \<not> is_ws c) s))
   \<and> repl (of_char CHR ''.'') = of_char CHR ''.''
   \<and> sanitizeFileName (js ''Report: Q1/Q2'') = js ''Report_ Q1_Q2''"
    using sanitize_no_reserved[of s] sanitize_shape[of s] adj sanitize_exact[of s]
      sanitize_blank[of s] sanitize_prefix[of s] sanitize_short[of s] dot sanitize_example
    by blast
  show ?thesis using old pre_truncation_spaced[of s] c1 c2 c3 by (intro conjI) blast+
qed

theorem sanitizeFileName_rules_witness:
  "blank (js ''   '') \<and> sanitizeFileName (js ''   '') = js ''untitled''
   \<and> \<not> blank (js ''  My   Page: a/b '') \<and> length (spaced_words (js ''  My   Page: a/b '')) \<le> 200
   \<and> sanitizeFileName (js ''  My   Page: a/b '') = js ''My Page_ a_b''
   \<and> 200 \<le> length (replicate 250 (97::nat)) \<and> pre_truncation (replicate 250 97) = replicate 250 97
   \<and> 200 < length (spaced_words (replicate 250 97))
   \<and> \<not> is_ws (spaced_words (replicate 250 97) ! 199)
   \<and> \<not> is_ws (replicate 250 97 ! 199) \<and> \<not> blank (replicate 250 97)
   \<and> sanitizeFileName (replicate 250 97) = replicate 200 97
   \<and> 200 < length (spaced_words (replicate 199 97 @ 32 # replicate 50 97))
   \<and> is_ws (spaced_words (replicate 199 97 @ 32 # replicate 50 97) ! 199)
   \<and> sanitizeFileName (replicate 199 97 @ 32 # replicate 50 97) = replicate 199 97
   \<and> \<not> blank (js ''a.b:c'') \<and> length (js ''a.b:c'') \<le> 200
   \<and> filter (\<lambda>c. \<not> is_ws c) (sanitizeFileName (js ''a.b:c'')) = js ''a.b_c''"
proof -
  have b: "blank (js ''   '')" by (simp add: blank_def js_def is_ws_def)
  have r1: "sanitizeFileName (js ''   '') = js ''untitled''"
    using sanitizeFileName_rules[of "js ''   ''"] b by blast
  have nbm: "\<not> blank (js ''  My   Page: a/b '')" by (simp add: blank_def js_def is_ws_def)
  have lm: "length (spaced_words (js ''  My   Page: a/b '')) \<le> 200"
    by (simp only: spaced_words_example) (simp add: js_def)
  have "sanitizeFileName (js ''  My   Page: a/b '') = spaced_words (js ''  My   Page: a/b '')"
    using sanitizeFileName_rules[of "js ''  My   Page: a/b ''"] nbm lm by blast
  then have r2: "sanitizeFileName (js ''  My   Page: a/b '') = js ''My Page_ a_b''"
    by (simp only: spaced_words_example)
  have l: "200 \<le> length (replicate 250 (97::nat))" by simp
  have w: "\<not> is_ws (replicate 250 97 ! 199)" by (simp add: is_ws_def)
  have nb: "\<not> blank (replicate 250 97)" by (simp add: blank_def is_ws_def)
  have p: "pre_truncation (replicate 250 97) = replicate 250 97"
  proof -
    have "pre_truncation (replicate 250 97) = collapse_ws (replicate 250 97)"
      by (rule pre_id) (auto simp: is_ws_def is_reserved_def hd_replicate last_replicate)
    then show ?thesis by (simp add: collapse_ws_id is_ws_def)
  qed
  have "pre_truncation (replicate 250 97) = spaced_words (replicate 250 97)"
    using sanitizeFileName_rules[of "replicate 250 97"] by blast
  then have sp: "spaced_words (replicate 250 97) = replicate 250 97" using p by simp
  have l3: "200 < length (spaced_words (replicate 250 97))" by (simp only: sp) simp
  have w3: "\<not> is_ws (spaced_words (replicate 250 97) ! 199)" by (simp only: sp) (simp add: is_ws_def)
  have "sanitizeFileName (replicate 250 97) = take 200 (spaced_words (replicate 250 97))"
    using sanitizeFileName_rules[of "replicate 250 97"] l3 w3 by blast
  then have r3: "sanitizeFileName (replicate 250 97) = replicate 200 97" by (simp only: sp) simp
  have a: "\<forall>c\<in>set (replicate n 97). \<not> is_ws c \<and> \<not> is_reserved c" for n
    by (auto simp: is_ws_def is_reserved_def)
  have c199: "length (replicate 199 (97::nat)) = 199" by simp
  have p4: "pre_truncation (replicate 199 97 @ 32 # replicate 50 97)
              = replicate 199 97 @ 32 # replicate 50 97"
    by (rule sanitize_space_at_200(1)[OF a a c199]) simp
  have "pre_truncation (replicate 199 97 @ 32 # replicate 50 97)
          = spaced_words (replicate 199 97 @ 32 # replicate 50 97)"
    using sanitizeFileName_rules[of "replicate 199 97 @ 32 # replicate 50 97"] by blast
  then have sp4: "spaced_words (replicate 199 97 @ 32 # replicate 50 97)
              = replicate 199 97 @ 32 # replicate 50 97"
    using p4 by simp
  have l4: "200 < length (spaced_words (replicate 199 97 @ 32 # replicate 50 97))"
    by (simp only: sp4) simp
  have w4: "is_ws (spaced_words (replicate 199 97 @ 32 # replicate 50 97) ! 199)"
    by (simp only: sp4) (simp add: nth_append)
  have "sanitizeFileName (replicate 199 97 @ 32 # replicate 50 97)
          = take 199 (spaced_words (replicate 199 97 @ 32 # replicate 50 97))"
    using sanitizeFileName_rules[of "replicate 199 97 @ 32 # replicate 50 97"] l4 w4 by blast
  then have r4: "sanitizeFileName (replicate 199 97 @ 32 # replicate 50 97) = replicate 199 97"
    by (simp only: sp4) simp
  have nb2: "\<not> blank (js ''a.b:c'')" by (simp add: blank_def js_def is_ws_def)
  have l2: "length (js ''a.b:c'') \<le> 200" by (simp add: js_def)
  have m: "map repl (filter (\<lambda>c. \<not> is_ws c) (js ''a.b:c'')) = js ''a.b_c''"
    by (simp add: js_def is_ws_def repl_def is_reserved_def)
  have "filter (\<lambda>c. \<not> is_ws c) (sanitizeFileName (js ''a.b:c''))
          = map repl (filter (\<lambda>c. \<not> is_ws c) (js ''a.b:c''))"
    using sanitizeFileName_rules[of "js ''a.b:c''"] nb2 l2 by blast
  then have r5: "filter (\<lambda>c. \<not> is_ws c) (sanitizeFileName (js ''a.b:c'')) = js ''a.b_c''"
    by (simp only: m)
  show ?thesis
    by (intro conjI b r1 nbm lm r2 l p l3 w3 w nb r3 l4 w4 r4 nb2 l2 r5)
qed

text \<open>
  C5, as the spec states it, fails for the length: a name of 250 code units which the
  replacements leave unchanged, with a space as its 200th code unit, gives 199 code units,
  because the result is trimmed again after the cut.
\<close>

theorem sanitizeFileName_truncation_counterexample:
  "(let s = replicate 199 97 @ [32] @ replicate 50 97
    in length s = 250 \<and> pre_truncation s = s \<and> length (sanitizeFileName s) = 199)"
proof -
  have a: "\<forall>c\<in>set (replicate n 97). \<not> is_ws c \<and> \<not> is_reserved c" for n
    by (auto simp: is_ws_def is_reserved_def)
  have b: "replicate 50 (97::nat) \<noteq> []" by simp
  have c: "length (replicate 199 (97::nat)) = 199" by simp
  note r = sanitize_space_at_200[OF a a c b]
  have "length (sanitizeFileName (replicate 199 97 @ 32 # replicate 50 97)) = 199"
    by (simp only: r c)
  then show ?thesis using r(1) by (simp add: Let_def)
qed

section \<open>Page paths\<close>

lemma fold_update_other:
  "k0 \<notin> k ` set xs \<Longrightarrow> fold (\<lambda>x m. m(k x \<mapsto> f x)) xs m0 k0 = m0 k0"
  by (induction xs arbitrary: m0) auto

lemma fold_update_lookup:
  "distinct (map k xs) \<Longrightarrow> p \<in> set xs \<Longrightarrow> fold (\<lambda>x m. m(k x \<mapsto> f x)) xs m0 (k p) = Some (f p)"
proof (induction xs arbitrary: m0)
  case Nil
  then show ?case by simp
next
  case (Cons x xs)
  define g where "g = (\<lambda>x m. m(k x \<mapsto> f x))"
  have step: "fold g (x # xs) m0 = fold g xs (g x m0)" by simp
  show ?case
  proof (cases "p = x")
    case True
    have "k x \<notin> k ` set xs" using Cons.prems(1) by simp
    then have "fold g xs (g x m0) (k x) = g x m0 (k x)"
      unfolding g_def by (rule fold_update_other)
    also have "\<dots> = Some (f x)" by (simp add: g_def)
    finally show ?thesis using True step by (simp only: g_def)
  next
    case False
    then have "p \<in> set xs" using Cons.prems(2) by simp
    moreover have "distinct (map k xs)" using Cons.prems(1) by simp
    ultimately have "fold g xs (g x m0) (k p) = Some (f p)"
      unfolding g_def by (rule Cons.IH[rotated])
    then show ?thesis using step by (simp only: g_def)
  qed
qed

lemma sanitize_clean:
  assumes ne: "s \<noteq> []" and cl: "\<forall>c\<in>set s. \<not> is_ws c \<and> \<not> is_reserved c" and len: "length s \<le> 200"
  shows "sanitizeFileName s = s"
proof -
  have h: "\<not> is_ws (hd s)" "\<not> is_ws (last s)" using ne cl by auto
  have "pre_truncation s = collapse_ws s" using ne h cl by (intro pre_id) auto
  then have p: "pre_truncation s = s" using cl by (simp add: collapse_ws_id)
  have "trim s = s" using ne h by (rule trim_id)
  then show ?thesis using ne len by (simp add: sanitize_out p)
qed

text \<open>
  C3. In a batch with distinct page ids (the caller removes duplicates) where no page is
  listed among its own ancestors, every page of the batch has an entry in the result. Its
  base path is the normalised sync folder joined with the sanitised titles of its
  ancestors, those with a configured root id left out. A page whose id is in the ancestor
  chain of another page of the batch gets the folder \<open>base/title\<close> and the file
  \<open>folder/title.md\<close>; every other page gets the base path as its folder and the file
  \<open>base/title.md\<close>. Obsidian's \<open>normalizePath\<close> is the parameter \<open>np\<close>.
\<close>

theorem calculatePagePaths_layout:
  fixes np :: "jsstring \<Rightarrow> jsstring" and st :: ConfluenceSyncSettings
    and pages :: "ConfluencePage list" and p :: ConfluencePage
  assumes ids: "distinct (map page_id pages)"
    and mem: "p \<in> set pages"
    and tree: "page_id p \<notin> anc_id ` set (ancestors p)"
  defines "segs \<equiv> map (\<lambda>a. sanitizeFileName (anc_title a))
                     (filter (\<lambda>a. anc_id a \<notin> set (parseRootPageIds (rootPageIds st))) (ancestors p))"
  defines "base \<equiv> (if segs = [] then np (syncFolder st)
                    else np (syncFolder st @ js ''/'' @ join (js ''/'') segs))"
  defines "safe \<equiv> sanitizeFileName (page_title p)"
  shows "calculatePagePaths np st pages (page_id p) =
     Some (if \<exists>q\<in>set pages. q \<noteq> p \<and> page_id p \<in> anc_id ` set (ancestors q)
           then \<lparr>pi_pageId = page_id p, pi_title = page_title p,
                 folderPath = np (base @ js ''/'' @ safe),
                 filePath = np (np (base @ js ''/'' @ safe) @ js ''/'' @ safe @ js ''.md'')\<rparr>
           else \<lparr>pi_pageId = page_id p, pi_title = page_title p,
                 folderPath = base,
                 filePath = np (base @ js ''/'' @ safe @ js ''.md'')\<rparr>)"
proof -
  have par: "page_id p \<in> parentPageIds pages
               \<longleftrightarrow> (\<exists>q\<in>set pages. q \<noteq> p \<and> page_id p \<in> anc_id ` set (ancestors q))"
    using tree by (auto simp: parentPageIds_def)
  have "calculatePagePaths np st pages (page_id p)
          = Some (pagePathInfo np st (set (parseRootPageIds (rootPageIds st))) (parentPageIds pages) p)"
    unfolding calculatePagePaths_def Let_def using ids mem by (rule fold_update_lookup)
  then show ?thesis
    unfolding par[symmetric] by (simp add: pagePathInfo_def Let_def segs_def base_def safe_def)
qed


lemma parseRootPageIds_100: "parseRootPageIds (js ''100'') = [js ''100'']"
  by (simp add: parseRootPageIds_def trim_def strip_leading_ws_def strip_trailing_ws_def
        js_def is_ws_def is_id_separator_def)

lemma sanitize_Child: "sanitizeFileName (js ''Child: A'') = js ''Child_ A''"
  by (simp add: sanitizeFileName_def pre_truncation_def replace_reserved_def repl_def
        strip_leading_ws_def strip_trailing_ws_def trim_def js_def is_ws_def is_reserved_def Let_def)

lemma sanitize_Leaf: "sanitizeFileName (js ''Leaf'') = js ''Leaf''"
  by (rule sanitize_clean) (simp_all add: js_def is_ws_def is_reserved_def)

theorem calculatePagePaths_layout_witness:
  "(let root = \<lparr>anc_id = js ''100'', anc_title = js ''Root''\<rparr>;
        child = \<lparr>page_id = js ''101'', page_title = js ''Child: A'', page_version = 1,
                 ancestors = [root], body = [], attachment_size = None\<rparr>;
        leaf = \<lparr>page_id = js ''102'', page_title = js ''Leaf'', page_version = 1,
                 ancestors = [root, \<lparr>anc_id = js ''101'', anc_title = js ''Child: A''\<rparr>],
                 body = [], attachment_size = None\<rparr>;
        st = \<lparr>confluenceBaseUrl = js ''https://wiki'', syncFolder = js ''Sync'',
               rootPageIds = js ''100''\<rparr>;
        paths = calculatePagePaths (\<lambda>path. path) st [child, leaf]
    in distinct (map page_id [child, leaf])
       \<and> page_id child \<notin> anc_id ` set (ancestors child)
       \<and> page_id leaf \<notin> anc_id ` set (ancestors leaf)
       \<and> map_option folderPath (paths (js ''101'')) = Some (js ''Sync/Child_ A'')
       \<and> map_option filePath (paths (js ''101'')) = Some (js ''Sync/Child_ A/Child_ A.md'')
       \<and> map_option folderPath (paths (js ''102'')) = Some (js ''Sync/Child_ A'')
       \<and> map_option filePath (paths (js ''102'')) = Some (js ''Sync/Child_ A/Leaf.md''))"
proof -
  define root where "root = \<lparr>anc_id = js ''100'', anc_title = js ''Root''\<rparr>"
  define child where "child = \<lparr>page_id = js ''101'', page_title = js ''Child: A'', page_version = 1,
                 ancestors = [root], body = [], attachment_size = None\<rparr>"
  define leaf where "leaf = \<lparr>page_id = js ''102'', page_title = js ''Leaf'', page_version = 1,
                 ancestors = [root, \<lparr>anc_id = js ''101'', anc_title = js ''Child: A''\<rparr>],
                 body = [], attachment_size = None\<rparr>"
  define st where "st = \<lparr>confluenceBaseUrl = js ''https://wiki'', syncFolder = js ''Sync'',
               rootPageIds = js ''100''\<rparr>"
  have d: "distinct (map page_id [child, leaf])" by (simp add: child_def leaf_def js_def)
  have c: "page_id child \<notin> anc_id ` set (ancestors child)" by (simp add: child_def root_def js_def)
  have l: "page_id leaf \<notin> anc_id ` set (ancestors leaf)" by (simp add: leaf_def root_def js_def)
  have neq: "child \<noteq> leaf" by (simp add: child_def leaf_def js_def)
  note ev = parseRootPageIds_100[unfolded js_def, simplified]
    sanitize_Child[unfolded js_def, simplified] sanitize_Leaf[unfolded js_def, simplified]
  have 1: "calculatePagePaths (\<lambda>path. path) st [child, leaf] (js ''101'')
             = Some \<lparr>pi_pageId = js ''101'', pi_title = js ''Child: A'',
                     folderPath = js ''Sync/Child_ A'', filePath = js ''Sync/Child_ A/Child_ A.md''\<rparr>"
    using calculatePagePaths_layout[OF d _ c, of "\<lambda>path. path" st] neq
    by (simp add: child_def leaf_def root_def st_def ev js_def)
  have 2: "calculatePagePaths (\<lambda>path. path) st [child, leaf] (js ''102'')
             = Some \<lparr>pi_pageId = js ''102'', pi_title = js ''Leaf'',
                     folderPath = js ''Sync/Child_ A'', filePath = js ''Sync/Child_ A/Leaf.md''\<rparr>"
    using calculatePagePaths_layout[OF d _ l, of "\<lambda>path. path" st] neq
    by (simp add: child_def leaf_def root_def st_def ev js_def)
  show ?thesis
    using d c l 1 2 unfolding root_def child_def leaf_def st_def Let_def by simp
qed

section \<open>Pagination\<close>

lemma fetchAll_loop_serve:
  "rootIds \<noteq> [] \<Longrightarrow>
   fetchAll_loop (serve rs) rootIds t acc start k =
     (if 1000 \<le> length (acc @ res_results (rs k)) then Some (Inr (acc @ res_results (rs k)), Suc k)
      else if res_size (rs k) = 25 \<and> int (length (acc @ res_results (rs k))) < res_totalSize (rs k)
           then fetchAll_loop (serve rs) rootIds t (acc @ res_results (rs k)) (start + 25) (Suc k)
           else Some (Inr (acc @ res_results (rs k)), Suc k))"
  by (subst fetchAll_loop.simps) (simp add: fetchPagesByRootIds_def serve_def Let_def)

lemma fetched_Suc: "fetched rs k = concat (map (\<lambda>i. res_results (rs i)) [0..<k]) @ res_results (rs k)"
  by (simp add: fetched_def)

lemma length_full_pages:
  "\<forall>j<k. length (res_results (rs j)) = 25
     \<Longrightarrow> length (concat (map (\<lambda>i. res_results (rs i)) [0..<k])) = 25 * k"
  by (induction k) auto

lemma not_stops_full:
  "honours_limit (rs j) \<Longrightarrow> \<not> stops_at rs j \<Longrightarrow> length (res_results (rs j)) = 25"
  by (auto simp: honours_limit_def stops_at_def)

lemma fetchAll_loop_from:
  assumes wf: "\<forall>k. honours_limit (rs k)" and ne: "rootIds \<noteq> []"
  shows "(\<forall>j<k. \<not> stops_at rs j) \<Longrightarrow> acc = concat (map (\<lambda>i. res_results (rs i)) [0..<k])
     \<Longrightarrow> \<exists>K\<ge>k. stops_at rs K \<and> (\<forall>j<K. \<not> stops_at rs j)
            \<and> fetchAll_loop (serve rs) rootIds t acc start k = Some (Inr (fetched rs K), Suc K)"
proof (induction "40 - k" arbitrary: k acc start rule: less_induct)
  case less
  have f: "acc @ res_results (rs k) = fetched rs k" using less.prems(2) by (simp add: fetched_Suc)
  show ?case
  proof (cases "stops_at rs k")
    case True
    have "fetchAll_loop (serve rs) rootIds t acc start k = Some (Inr (fetched rs k), Suc k)"
    proof (cases "1000 \<le> length (fetched rs k)")
      case True
      then show ?thesis by (subst fetchAll_loop_serve[OF ne]) (simp add: f)
    next
      case False
      with \<open>stops_at rs k\<close>
      have "length (res_results (rs k)) < 25 \<or> res_totalSize (rs k) \<le> int (length (fetched rs k))"
        by (simp add: stops_at_def)
      moreover have "res_size (rs k) = int (length (res_results (rs k)))"
        using wf by (simp add: honours_limit_def)
      ultimately have "\<not> (res_size (rs k) = 25 \<and> int (length (fetched rs k)) < res_totalSize (rs k))"
        by auto
      with False show ?thesis by (subst fetchAll_loop_serve[OF ne]) (auto simp: f)
    qed
    with True less.prems(1) show ?thesis by blast
  next
    case False
    have full: "\<forall>j<Suc k. length (res_results (rs j)) = 25"
      using less.prems(1) False wf not_stops_full by (auto simp: less_Suc_eq)
    have len: "length (fetched rs k) = 25 * Suc k"
      using length_full_pages[OF full] by (simp add: fetched_def)
    have lt: "length (fetched rs k) < 1000" and tot: "int (length (fetched rs k)) < res_totalSize (rs k)"
      using False by (auto simp: stops_at_def)
    have sz: "res_size (rs k) = 25" using wf full by (simp add: honours_limit_def)
    have k: "k < 39" using len lt by simp
    have step: "fetchAll_loop (serve rs) rootIds t acc start k
                  = fetchAll_loop (serve rs) rootIds t (fetched rs k) (start + 25) (Suc k)"
      using lt tot sz by (subst fetchAll_loop_serve[OF ne]) (simp add: f)
    have "\<exists>K\<ge>Suc k. stops_at rs K \<and> (\<forall>j<K. \<not> stops_at rs j)
            \<and> fetchAll_loop (serve rs) rootIds t (fetched rs k) (start + 25) (Suc k)
                = Some (Inr (fetched rs K), Suc K)"
    proof (rule less.hyps)
      show "40 - Suc k < 40 - k" using k by simp
      show "\<forall>j<Suc k. \<not> stops_at rs j" using less.prems(1) False by (auto simp: less_Suc_eq)
      show "fetched rs k = concat (map (\<lambda>i. res_results (rs i)) [0..<Suc k])" by (simp add: fetched_def)
    qed
    then show ?thesis using step by (metis Suc_leD)
  qed
qed

lemma fetched_bound:
  assumes wf: "\<forall>k. honours_limit (rs k)" and first: "\<forall>j<K. \<not> stops_at rs j"
  shows "length (fetched rs K) \<le> 1000 \<and> K < 40"
proof (cases K)
  case 0
  then show ?thesis using wf by (simp add: fetched_def honours_limit_def le_trans[of _ 25 1000])
next
  case (Suc n)
  have full: "\<forall>j<Suc n. length (res_results (rs j)) = 25"
    using first wf not_stops_full Suc by auto
  have len: "length (fetched rs n) = 25 * Suc n"
    using length_full_pages[OF full] by (simp add: fetched_def)
  have "\<not> stops_at rs n" using first Suc by simp
  then have lt: "length (fetched rs n) < 1000" by (simp add: stops_at_def)
  have "length (res_results (rs K)) \<le> 25" using wf by (simp add: honours_limit_def)
  moreover have "fetched rs K = fetched rs n @ res_results (rs K)" using Suc by (simp add: fetched_def)
  ultimately show ?thesis using len lt Suc by simp
qed

text \<open>
  C4. The answers of the listing endpoint are pages of the request: each reports the
  number of its results as its size, and has at most 25 of them, the limit the loop asks
  for. Against every sequence of such answers the loop ends: it returns the results of the
  answers 0 to K, where K is the first answer with fewer than 25 results, or with the
  accumulated count at or above the reported total, or with the accumulated count at or
  above 1000. It makes at most 40 requests and returns at most 1000 documents, whatever
  totals the answers report. With no root id it returns the empty list without a request.
\<close>

theorem fetchAllPagesByRootIds_pagination:
  assumes wf: "\<forall>k. honours_limit (rs k)"
  shows "if rootIds = [] then fetchAllPagesByRootIds (serve rs) rootIds lastSyncTime 0 = Some (Inr [], 0)
         else \<exists>K. fetchAllPagesByRootIds (serve rs) rootIds lastSyncTime 0
                     = Some (Inr (fetched rs K), Suc K)
                  \<and> stops_at rs K \<and> (\<forall>j<K. \<not> stops_at rs j)
                  \<and> K < 40 \<and> length (fetched rs K) \<le> 1000"
proof (cases "rootIds = []")
  case True
  have "fetchAll_loop (serve rs) [] lastSyncTime [] 0 0 = Some (Inr [], 0)"
    by (subst fetchAll_loop.simps) (simp add: fetchPagesByRootIds_def)
  then show ?thesis using True by (simp add: fetchAllPagesByRootIds_def)
next
  case False
  from fetchAll_loop_from[OF wf False, of 0 "[]" lastSyncTime 0]
  obtain K where K: "stops_at rs K" "\<forall>j<K. \<not> stops_at rs j"
    "fetchAll_loop (serve rs) rootIds lastSyncTime [] 0 0 = Some (Inr (fetched rs K), Suc K)"
    by auto
  from fetched_bound[OF wf K(2)] K False show ?thesis
    by (auto simp: fetchAllPagesByRootIds_def)
qed

theorem fetchAllPagesByRootIds_pagination_witness:
  "(let pg = \<lparr>page_id = js ''101'', page_title = js ''A'', page_version = 1, ancestors = [],
                body = [], attachment_size = None\<rparr>;
        rs = (\<lambda>k. if k = 0
                  then \<lparr>res_results = replicate 25 pg, res_size = 25, res_start = 0,
                        res_limit = 25, res_totalSize = 30\<rparr>
                  else \<lparr>res_results = replicate 5 pg, res_size = 5, res_start = 25,
                        res_limit = 25, res_totalSize = 30\<rparr>)
    in (\<forall>k. honours_limit (rs k))
       \<and> (\<exists>K. fetchAllPagesByRootIds (serve rs) [js ''100''] 0 0 = Some (Inr (fetched rs K), Suc K)
               \<and> stops_at rs K \<and> (\<forall>j<K. \<not> stops_at rs j)
               \<and> K < 40 \<and> length (fetched rs K) \<le> 1000))"
proof -
  define pg where "pg = \<lparr>page_id = js ''101'', page_title = js ''A'', page_version = 1,
                ancestors = [], body = [], attachment_size = None\<rparr>"
  define rs where "rs = (\<lambda>k::nat. if k = 0
                  then \<lparr>res_results = replicate 25 pg, res_size = 25, res_start = 0,
                        res_limit = 25, res_totalSize = 30\<rparr>
                  else \<lparr>res_results = replicate 5 pg, res_size = 5, res_start = 25,
                        res_limit = 25, res_totalSize = 30\<rparr>)"
  have wf: "\<forall>k. honours_limit (rs k)" by (simp add: rs_def honours_limit_def)
  have ne: "[js ''100''] \<noteq> []" by simp
  have res: "\<exists>K. fetchAllPagesByRootIds (serve rs) [js ''100''] 0 0 = Some (Inr (fetched rs K), Suc K)
               \<and> stops_at rs K \<and> (\<forall>j<K. \<not> stops_at rs j)
               \<and> K < 40 \<and> length (fetched rs K) \<le> 1000"
    using fetchAllPagesByRootIds_pagination[OF wf, of "[js ''100'']" 0] ne by simp
  show ?thesis using wf res unfolding rs_def pg_def Let_def by blast
qed

section \<open>Conversion fallback\<close>

lemma set_strip_tags: "set (strip_tags s) \<subseteq> set s"
proof (induction s rule: strip_tags.induct)
  case 1
  then show ?case by simp
next
  case (2 c cs)
  have "set (tl (dropWhile (\<lambda>d. d \<noteq> 62) cs)) \<subseteq> set cs"
    by (metis (no_types) list.set_sel(2) set_dropWhileD subsetI tl_Nil)
  with 2 show ?case by auto
qed

lemma strip_tags_no_tag: "strip_tags s \<noteq> xs @ 60 # ys @ 62 # zs"
proof (induction s arbitrary: xs rule: strip_tags.induct)
  case 1
  then show ?case by simp
next
  case (2 c cs)
  show ?case
  proof (cases "c = 60 \<and> 62 \<in> set cs")
    case True
    then show ?thesis using 2(1) by simp
  next
    case False
    show ?thesis
    proof (cases xs)
      case Nil
      have "62 \<notin> set (strip_tags cs)" if "c = 60"
        using that False set_strip_tags[of cs] by auto
      then show ?thesis using False Nil by auto
    next
      case (Cons x xs')
      then show ?thesis using False 2(2)[of xs'] by auto
    qed
  qed
qed

lemma strip_tags_example: "strip_tags (js ''<p>Hi <b>x</b></p>'') = js ''Hi x''"
  by (simp add: js_def)

lemma strip_tags_text: "60 \<notin> set t \<Longrightarrow> strip_tags (t @ s) = t @ strip_tags s"
  by (induction t) auto

lemma strip_tags_tag: "62 \<notin> set b \<Longrightarrow> strip_tags (60 # b @ 62 # s) = strip_tags s"
proof -
  assume "62 \<notin> set b"
  then have "dropWhile (\<lambda>d. d \<noteq> 62) (b @ 62 # s) = 62 # s"
    by (subst dropWhile_append2) auto
  then show ?thesis by simp
qed

lemma strip_tags_open: "62 \<notin> set (dropWhile (\<lambda>c. c \<noteq> 60) t) \<Longrightarrow> strip_tags t = t"
proof (induction t)
  case Nil
  then show ?case by simp
next
  case (Cons c cs)
  show ?case
  proof (cases "c = 60")
    case True
    then show ?thesis using Cons.prems Cons.IH
      by (auto dest: set_dropWhileD)
  next
    case False
    then show ?thesis using Cons by simp
  qed
qed

lemma strip_tags_reading: "tag_reading ps \<Longrightarrow> strip_tags (render ps) = plain_text ps"
proof (induction ps rule: tag_reading.induct)
  case 1
  then show ?case by simp
next
  case (2 b ps)
  then show ?case by (simp add: strip_tags_tag del: strip_tags.simps)
next
  case (3 t)
  then show ?case by (simp add: strip_tags_open del: strip_tags.simps)
next
  case (4 t p ps)
  then show ?case by (simp add: strip_tags_text del: strip_tags.simps)
qed

lemma pieces_reading: "render (pieces s) = s \<and> tag_reading (pieces s)"
proof (induction s rule: pieces.induct)
  case (1 s)
  define t where "t = takeWhile (\<lambda>c. c \<noteq> 60) s"
  define r where "r = dropWhile (\<lambda>c. c \<noteq> 60) s"
  have s: "s = t @ r" by (simp add: t_def r_def)
  have t60: "60 \<notin> set t" unfolding t_def by (auto dest: set_takeWhileD)
  show ?case
  proof (cases "r = [] \<or> 62 \<notin> set r")
    case True
    then have ps: "pieces s = [Text s]" by (subst pieces.simps) (simp add: r_def Let_def)
    have "62 \<notin> set r" using True by auto
    then have "62 \<notin> set (dropWhile (\<lambda>c. c \<noteq> 60) s)" unfolding r_def .
    then have "tag_reading [Text s]" by simp
    then show ?thesis by (simp only: ps render.simps append_Nil2 simp_thms)
  next
    case False
    define b where "b = takeWhile (\<lambda>c. c \<noteq> 62) (tl r)"
    define rest where "rest = tl (dropWhile (\<lambda>c. c \<noteq> 62) (tl r))"
    have p: "pieces s = Text t # Tag b # pieces rest"
      using False by (subst pieces.simps) (simp add: r_def t_def b_def rest_def Let_def)
    have rne: "r \<noteq> []" using False by simp
    then have "dropWhile (\<lambda>c. c \<noteq> 60) s \<noteq> []" unfolding r_def .
    from hd_dropWhile[OF this] have hd: "hd r = 60" by (simp add: r_def)
    obtain r' where r: "r = 60 # r'" using rne hd by (cases r) auto
    have tl: "tl r = r'" by (simp add: r)
    have "62 \<in> set r" using False by simp
    then have in62: "62 \<in> set r'" by (simp add: r)
    then have d: "dropWhile (\<lambda>c. c \<noteq> 62) r' \<noteq> []" by (simp add: dropWhile_eq_Nil_conv)
    from hd_dropWhile[OF this] have "hd (dropWhile (\<lambda>c. c \<noteq> 62) r') = 62" by simp
    with d have "dropWhile (\<lambda>c. c \<noteq> 62) r' = 62 # rest"
      unfolding rest_def tl by (cases "dropWhile (\<lambda>c. c \<noteq> 62) r'") auto
    moreover have "r' = takeWhile (\<lambda>c. c \<noteq> 62) r' @ dropWhile (\<lambda>c. c \<noteq> 62) r'" by simp
    ultimately have tlr: "r' = b @ 62 # rest" unfolding b_def tl by simp
    have b62: "62 \<notin> set b" unfolding b_def by (auto dest: set_takeWhileD)
    have ih: "render (pieces rest) = rest \<and> tag_reading (pieces rest)"
      using "1.IH"[OF t_def r_def False] by (simp add: rest_def r_def)
    have "render (pieces s) = t @ 60 # b @ 62 # rest" using p ih by simp
    also have "\<dots> = s" using s r tlr by simp
    finally have "render (pieces s) = s" .
    moreover have "tag_reading (pieces s)" using p ih t60 b62 by simp
    ultimately show ?thesis by simp
  qed
qed

lemma strip_tags_pieces: "strip_tags s = plain_text (pieces s)"
  using strip_tags_reading[of "pieces s"] pieces_reading[of s] by simp

text \<open>
  C8. \<open>convert\<close> returns for every input and every behaviour of the structural
  converter, and never throws. When the converter returns, the result is its Markdown.
  When it throws, the result is the input with its tags stripped: the input reads as a
  sequence of text pieces and tags, and the result is the text pieces in order, with
  nothing of a tag and nothing else left out. This holds of every reading of the input,
  so a document written as such a sequence comes back as its text pieces. In the result
  no \<open><\<close> is followed by a \<open>>\<close> any more.
\<close>

theorem convert_never_throws:
  "(\<exists>out. convert turndown html = Inr out)
   \<and> (\<forall>markdown. turndown html = Inr markdown \<longrightarrow> convert turndown html = Inr markdown)
   \<and> render (pieces html) = html \<and> tag_reading (pieces html)
   \<and> (\<forall>e. turndown html = Inl e
          \<longrightarrow> convert turndown html = Inr (plain_text (pieces html))
              \<and> convert turndown html = Inr (strip_tags html)
              \<and> \<not> (\<exists>xs ys zs. convert turndown html = Inr (xs @ [60] @ ys @ [62] @ zs)))
   \<and> (\<forall>ps e. tag_reading ps \<and> turndown (render ps) = Inl e
          \<longrightarrow> convert turndown (render ps) = Inr (plain_text ps))"
proof -
  have a: "\<exists>out. convert turndown html = Inr out"
    by (cases "turndown html") (simp_all add: convert_def)
  have b: "\<forall>markdown. turndown html = Inr markdown \<longrightarrow> convert turndown html = Inr markdown"
    by (simp add: convert_def)
  have c: "\<forall>e. turndown html = Inl e
          \<longrightarrow> convert turndown html = Inr (plain_text (pieces html))
              \<and> convert turndown html = Inr (strip_tags html)
              \<and> \<not> (\<exists>xs ys zs. convert turndown html = Inr (xs @ [60] @ ys @ [62] @ zs))"
    using strip_tags_no_tag[of html] by (auto simp: convert_def strip_tags_pieces)
  have d: "\<forall>ps e. tag_reading ps \<and> turndown (render ps) = Inl e
          \<longrightarrow> convert turndown (render ps) = Inr (plain_text ps)"
    by (simp add: convert_def strip_tags_reading)
  show ?thesis using a b c d pieces_reading[of html] by blast
qed

theorem convert_never_throws_witness:
  "(let ps = [Tag (js ''p''), Text (js ''Hi ''), Tag (js ''b''), Text (js ''x''), Tag (js ''/b''),
              Tag (js ''/p'')];
        throwing = (\<lambda>h. Inl (js ''boom''))
    in tag_reading ps \<and> render ps = js ''<p>Hi <b>x</b></p>''
       \<and> throwing (render ps) = Inl (js ''boom'')
       \<and> convert throwing (js ''<p>Hi <b>x</b></p>'') = Inr (js ''Hi x'')
       \<and> convert (\<lambda>h. Inr (js ''# T'')) (js ''<h1>T</h1>'') = Inr (js ''# T''))"
proof -
  define ps where "ps = [Tag (js ''p''), Text (js ''Hi ''), Tag (js ''b''), Text (js ''x''),
                         Tag (js ''/b''), Tag (js ''/p'')]"
  have r: "tag_reading ps" and h: "render ps = js ''<p>Hi <b>x</b></p>''"
    and t: "plain_text ps = js ''Hi x''"
    by (simp_all add: ps_def js_def)
  have "convert (\<lambda>h. Inl (js ''boom'')) (render ps) = Inr (plain_text ps)"
    using convert_never_throws[of "\<lambda>h. Inl (js ''boom'')" "render ps"] r by blast
  moreover have "convert (\<lambda>h. Inr (js ''# T'')) (js ''<h1>T</h1>'') = Inr (js ''# T'')"
    using convert_never_throws[of "\<lambda>h. Inr (js ''# T'')" "js ''<h1>T</h1>''"] by blast
  ultimately show ?thesis using r h t unfolding ps_def Let_def by simp
qed

section \<open>Attachments and the pass\<close>


















end
